theory Spec2Isabelle
  imports Main "HOL-Library.Word"
begin

unbundle bit_operations_syntax

section \<open>go-multikeypair: data model\<close>

type_synonym byte = "8 word"
type_synonym uint32 = "32 word"
type_synonym uint64 = "64 word"

text \<open>
  The exported error values of keypair.go. A Go \<open>error\<close> result that may be \<open>nil\<close>
  is an \<open>error option\<close>; a Go result pair \<open>(value, error)\<close> is \<open>error + value\<close>.
\<close>

datatype error =
    ErrUnknownCode
  | ErrTooShort
  | ErrTooLong
  | ErrInvalidMultikeypair
  | ErrVarintBufferShort
  | ErrVarintTooLong

text \<open>
  A Go call either panics or returns. Functions of the source that contain a
  \<open>panic\<close> (or an index expression that may go out of range) return an \<open>outcome\<close>.
\<close>

datatype 'a outcome = Panic | Return 'a

definition obind :: "'a outcome \<Rightarrow> ('a \<Rightarrow> 'b outcome) \<Rightarrow> 'b outcome" where
  "obind m f = (case m of Panic \<Rightarrow> Panic | Return x \<Rightarrow> f x)"

subsection \<open>Cipher registries\<close>

definition IDENTITY :: uint64 where "IDENTITY = 0x00"
definition ED_25519 :: uint64 where "ED_25519 = 0x11"
definition BIP_32 :: uint64 where "BIP_32 = 0x12"
definition DSA :: uint64 where "DSA = 0x13"
definition RSA :: uint64 where "RSA = 0x14"

text \<open>The Go maps, as association lists in the order of the source's literals.\<close>

definition Names :: "(string \<times> uint64) list" where
  "Names =
    [(''identity'', IDENTITY),
     (''ed25519'', ED_25519),
     (''bip32'', BIP_32),
     (''dsa'', DSA),
     (''res'', RSA)]"

definition Codes :: "(uint64 \<times> string) list" where
  "Codes =
    [(IDENTITY, ''identity''),
     (ED_25519, ''ed25519''),
     (BIP_32, ''bip32''),
     (DSA, ''dsa''),
     (RSA, ''rsa'')]"

definition RecursiveNames :: "(string \<times> uint64) list" where
  "RecursiveNames = []"

definition RecursiveCodes :: "(uint64 \<times> string) list" where
  "RecursiveCodes = []"

text \<open>
  Indexing a Go map with a key that is absent yields the zero value of the
  element type: \<open>0\<close> for \<open>uint64\<close>, the empty string for \<open>string\<close>.
\<close>

definition Names_index :: "string \<Rightarrow> uint64" where
  "Names_index name = (case map_of Names name of None \<Rightarrow> 0 | Some c \<Rightarrow> c)"

definition Codes_index :: "uint64 \<Rightarrow> string" where
  "Codes_index code = (case map_of Codes code of None \<Rightarrow> [] | Some n \<Rightarrow> n)"

text \<open>
  \<open>for k := range m { if k == code { return nil } }; return ErrUnknownCode\<close>:
  the loop of \<open>validCode\<close> and \<open>validRecursiveCode\<close> over the keys of a map.
\<close>

fun range_keys :: "uint64 list \<Rightarrow> uint64 \<Rightarrow> error option" where
  "range_keys [] code = Some ErrUnknownCode"
| "range_keys (k # ks) code = (if k = code then None else range_keys ks code)"

definition validCode :: "uint64 \<Rightarrow> error option" where
  "validCode code = range_keys (map fst Codes) code"

definition validRecursiveCode :: "uint64 \<Rightarrow> error option" where
  "validRecursiveCode code = range_keys (map fst RecursiveCodes) code"

subsection \<open>Keypair and Recursivekey\<close>

text \<open>
  Go's \<open>int\<close> fields hold lengths and counts; they are modelled as \<open>int\<close>, and the one
  conversion from \<open>uint64\<close> that can wrap (\<open>UnpackLen\<close>) is written with \<open>sint\<close>
  (a 64-bit \<open>int\<close>). A byte slice is a \<open>byte list\<close>; \<open>nil\<close> and the empty slice
  are both \<open>[]\<close>. The fields \<open>Code\<close> and \<open>Name\<close> of \<open>Recursivekey\<close> are
  \<open>RCode\<close> and \<open>RName\<close> here, since \<open>Keypair\<close> has fields of the same names.
\<close>

record Keypair =
  Code :: uint64
  Name :: string
  Public :: "byte list"
  PublicLength :: int
  Private :: "byte list"
  PrivateLength :: int

record Recursivekey =
  RCode :: uint64
  RName :: string
  Master :: "byte list"
  MasterLength :: int
  ChildrenNum :: int
  Children :: "Keypair list"

section \<open>Varint helpers (math/bits, go-varint, encoding/binary)\<close>

text \<open>
  \<open>bits.Len64(x)\<close>: the minimum number of bits required to represent \<open>x\<close>;
  \<open>0\<close> for \<open>x = 0\<close>.
\<close>

function Len64 :: "uint64 \<Rightarrow> nat" where
  "Len64 x = (if x = 0 then 0 else Suc (Len64 (drop_bit 1 x)))"
  by pat_completeness auto
termination
proof (relation "measure unat")
  show "wf (measure (unat :: uint64 \<Rightarrow> nat))" by simp
next
  fix x :: uint64
  assume "x \<noteq> 0"
  then have "unat x \<noteq> 0" by (simp add: unat_eq_0)
  then have "unat x div 2 < unat x" by simp
  then show "(drop_bit 1 x, x) \<in> measure unat"
    by (simp add: drop_bit_eq_div unat_div)
qed

declare Len64.simps [simp del]

text \<open>
  go-varint \<open>UvarintSize\<close>:
  \<^verbatim>\<open>bits := bits.Len64(num); q, r := bits/7, bits%7; size := q;
  if r > 0 || size == 0 { size++ }; return size\<close>
\<close>

definition UvarintSize :: "uint64 \<Rightarrow> nat" where
  "UvarintSize num =
    (let bits = Len64 num; q = bits div 7; r = bits mod 7; size = q
     in if r > 0 \<or> size = 0 then size + 1 else size)"

text \<open>
  \<open>binary.PutUvarint(buf, x)\<close> (go-varint's \<open>PutUvarint\<close> calls it):
  \<^verbatim>\<open>i := 0; for x >= 0x80 { buf[i] = byte(x) | 0x80; x >>= 7; i++ };
  buf[i] = byte(x); return i + 1\<close>
  An index expression out of range panics.
\<close>

function PutUvarint_loop :: "byte list \<Rightarrow> nat \<Rightarrow> uint64 \<Rightarrow> (byte list \<times> nat) outcome" where
  "PutUvarint_loop buf i x =
    (if x \<ge> 0x80 then
       (if i < length buf
        then PutUvarint_loop (buf[i := ucast x OR 0x80]) (i + 1) (drop_bit 7 x)
        else Panic)
     else
       (if i < length buf then Return (buf[i := ucast x], i + 1) else Panic))"
  by pat_completeness auto
termination
proof (relation "measure (\<lambda>(buf, i, x). unat x)")
  show "wf (measure (\<lambda>(buf :: byte list, i :: nat, x :: uint64). unat x))" by simp
next
  fix buf :: "byte list" and i :: nat and x :: uint64
  assume "0x80 \<le> x"
  then have "128 \<le> unat x" by (simp add: word_le_nat_alt)
  then have "unat x div 128 < unat x" by simp
  then show "((buf[i := ucast x OR 0x80], i + 1, drop_bit 7 x), (buf, i, x))
      \<in> measure (\<lambda>(buf, i, x). unat x)"
    by (simp add: drop_bit_eq_div unat_div)
qed

declare PutUvarint_loop.simps [simp del]

definition PutUvarint :: "byte list \<Rightarrow> uint64 \<Rightarrow> (byte list \<times> nat) outcome" where
  "PutUvarint buf x = PutUvarint_loop buf 0 x"

text \<open>
  \<open>PackCode\<close>: \<^verbatim>\<open>size := varint.UvarintSize(code); buf := make([]byte, size);
  varint.PutUvarint(buf, code); return buf\<close>
\<close>

definition PackCode :: "uint64 \<Rightarrow> byte list outcome" where
  "PackCode code =
    (let size = UvarintSize code;
         buf = replicate size 0
     in obind (PutUvarint buf code) (\<lambda>(buf', n). Return buf'))"

text \<open>\<open>PackLen\<close>: the same with \<open>l := uint64(len)\<close> first.\<close>

definition PackLen :: "int \<Rightarrow> byte list outcome" where
  "PackLen len =
    (let l = (word_of_int len :: uint64);
         size = UvarintSize l;
         buf = replicate size 0
     in obind (PutUvarint buf l) (\<lambda>(buf', n). Return buf'))"

text \<open>
  \<open>binary.Uvarint(buf)\<close> (Go 1.17, \<open>MaxVarintLen64 = 10\<close>):
  \<^verbatim>\<open>var x uint64; var s uint
  for i, b := range buf {
    if i == MaxVarintLen64 { return 0, -(i + 1) }
    if b < 0x80 {
      if i == MaxVarintLen64-1 && b > 1 { return 0, -(i + 1) }
      return x | uint64(b)<<s, i + 1
    }
    x |= uint64(b&0x7f) << s
    s += 7
  }
  return 0, 0\<close>
\<close>

fun Uvarint_loop :: "byte list \<Rightarrow> nat \<Rightarrow> uint64 \<Rightarrow> nat \<Rightarrow> uint64 \<times> int" where
  "Uvarint_loop [] i x s = (0, 0)"
| "Uvarint_loop (b # bs) i x s =
    (if i = 10 then (0, - (int i + 1))
     else if b < 0x80 then
       (if i = 9 \<and> b > 1 then (0, - (int i + 1))
        else (x OR push_bit s (ucast b), int i + 1))
     else Uvarint_loop bs (i + 1) (x OR push_bit s (ucast (b AND 0x7f))) (s + 7))"

definition Uvarint :: "byte list \<Rightarrow> uint64 \<times> int" where
  "Uvarint buf = Uvarint_loop buf 0 0 0"

definition UnpackCode :: "byte list \<Rightarrow> error + uint64" where
  "UnpackCode buf =
    (let (code, n) = Uvarint buf
     in if n = 0 then Inl ErrVarintBufferShort
        else if n < 0 then Inl ErrVarintTooLong
        else Inr code)"

definition UnpackLen :: "byte list \<Rightarrow> error + int" where
  "UnpackLen buf =
    (let (childLen, n) = Uvarint buf
     in if n = 0 then Inl ErrVarintBufferShort
        else if n < 0 then Inl ErrVarintTooLong
        else Inr (sint childLen))"

section \<open>cryptobyte: the length-prefixed frame builder and reader\<close>

text \<open>
  \<open>cryptobyte.Builder\<close>, reduced to the fields the repository's calls reach:
  the bytes written so far, the sticky error, and for a child builder the offset
  of its pending length prefix and the width of that prefix. A child builder
  shares and extends the parent's \<open>result\<close>. A builder that has met an error
  ignores every later write. (The builder's guard against an \<open>int\<close> overflow of
  the buffer length is left out: list lengths are unbounded here.)
\<close>

datatype build_error = ChildLengthExceedsPrefix

record Builder =
  err :: "build_error option"
  result :: "byte list"
  offset :: nat
  pendingLenLen :: nat

definition newBuilder :: Builder where
  "newBuilder = \<lparr>err = None, result = [], offset = 0, pendingLenLen = 0\<rparr>"

definition add :: "byte list \<Rightarrow> Builder \<Rightarrow> Builder" where
  "add bytes b = (if err b \<noteq> None then b else b\<lparr>result := result b @ bytes\<rparr>)"

definition AddBytes :: "byte list \<Rightarrow> Builder \<Rightarrow> Builder" where
  "AddBytes v b = add v b"

text \<open>
  The loop of \<open>flushChild\<close> that stores the length, last byte first:
  \<^verbatim>\<open>l := length
  for i := child.pendingLenLen - 1; i >= 0; i-- {
    child.result[child.offset+i] = uint8(l); l >>= 8 }\<close>
  The first argument is \<open>i + 1\<close>; the function returns the buffer and the final \<open>l\<close>.
\<close>

fun writeLength :: "nat \<Rightarrow> nat \<Rightarrow> nat \<Rightarrow> byte list \<Rightarrow> byte list \<times> nat" where
  "writeLength 0 off l res = (res, l)"
| "writeLength (Suc i) off l res = writeLength i off (l div 256) (res[off + i := of_nat l])"

text \<open>
  \<open>flushChild\<close>, for the parent \<open>b\<close> and its finished child: a child's error is
  copied up; a length that does not fit the prefix is an error of the parent;
  otherwise the parent takes the child's bytes. A shrunk result panics.
\<close>

definition flushChild :: "Builder \<Rightarrow> Builder \<Rightarrow> Builder outcome" where
  "flushChild b child =
    (if err child \<noteq> None then Return (b\<lparr>err := err child\<rparr>)
     else if length (result child) < pendingLenLen child + offset child then Panic
     else
       let len = length (result child) - pendingLenLen child - offset child;
           (res, l) = writeLength (pendingLenLen child) (offset child) len (result child)
       in if l \<noteq> 0 then Return (b\<lparr>err := Some ChildLengthExceedsPrefix\<rparr>)
          else Return (b\<lparr>result := res\<rparr>))"

text \<open>
  \<open>addLengthPrefixed(lenLen, false, f)\<close>: reserve the prefix, run the
  continuation on a child builder, flush. A panic of the continuation that is
  not a \<open>BuildError\<close> is raised again by \<open>callContinuation\<close>.
\<close>

definition addLengthPrefixed ::
  "nat \<Rightarrow> (Builder \<Rightarrow> Builder outcome) \<Rightarrow> Builder \<Rightarrow> Builder outcome" where
  "addLengthPrefixed lenLen f b =
    (if err b \<noteq> None then Return b
     else
       let off = length (result b);
           b1 = add (replicate lenLen 0) b;
           child = \<lparr>err = None, result = result b1, offset = off, pendingLenLen = lenLen\<rparr>
       in obind (f child) (flushChild b1))"

definition AddUint16LengthPrefixed ::
  "(Builder \<Rightarrow> Builder outcome) \<Rightarrow> Builder \<Rightarrow> Builder outcome" where
  "AddUint16LengthPrefixed f b = addLengthPrefixed 2 f b"

definition AddUint24LengthPrefixed ::
  "(Builder \<Rightarrow> Builder outcome) \<Rightarrow> Builder \<Rightarrow> Builder outcome" where
  "AddUint24LengthPrefixed f b = addLengthPrefixed 3 f b"

definition Bytes :: "Builder \<Rightarrow> build_error + byte list" where
  "Bytes b = (case err b of Some e \<Rightarrow> Inl e | None \<Rightarrow> Inr (drop (offset b) (result b)))"

text \<open>
  \<open>cryptobyte.String\<close> is a byte slice that the read methods advance. A read
  returns the bytes read and the advanced string, or \<open>None\<close> where the Go method
  returns \<open>false\<close> (every caller in the repository returns at once then).
\<close>

definition read :: "nat \<Rightarrow> byte list \<Rightarrow> (byte list \<times> byte list) option" where
  "read n s = (if length s < n then None else Some (take n s, drop n s))"

text \<open>
  \<open>readLengthPrefixed\<close>: \<^verbatim>\<open>var length uint32
  for _, b := range lenBytes { length = length << 8; length = length | uint32(b) }\<close>
\<close>

definition readLengthPrefixed :: "nat \<Rightarrow> byte list \<Rightarrow> (byte list \<times> byte list) option" where
  "readLengthPrefixed lenLen s =
    (case read lenLen s of
       None \<Rightarrow> None
     | Some (lenBytes, s1) \<Rightarrow>
         let len = foldl (\<lambda>len b. push_bit 8 len OR ucast b) (0 :: uint32) lenBytes
         in read (unat len) s1)"

definition ReadUint16LengthPrefixed :: "byte list \<Rightarrow> (byte list \<times> byte list) option" where
  "ReadUint16LengthPrefixed s = readLengthPrefixed 2 s"

definition ReadUint24LengthPrefixed :: "byte list \<Rightarrow> (byte list \<times> byte list) option" where
  "ReadUint24LengthPrefixed s = readLengthPrefixed 3 s"

definition Empty :: "byte list \<Rightarrow> bool" where
  "Empty s = (length s = 0)"

section \<open>keypair.go\<close>

definition encodeKeypair :: "byte list \<Rightarrow> byte list \<Rightarrow> uint64 \<Rightarrow> byte list outcome" where
  "encodeKeypair private public code =
    obind (PackCode code) (\<lambda>codeBuf.
    obind (AddUint24LengthPrefixed (\<lambda>b.
        obind (AddUint16LengthPrefixed (\<lambda>b. Return (AddBytes codeBuf b)) b) (\<lambda>b.
        obind (AddUint16LengthPrefixed (\<lambda>b. Return (AddBytes private b)) b) (\<lambda>b.
        AddUint16LengthPrefixed (\<lambda>b. Return (AddBytes public b)) b))) newBuilder) (\<lambda>b.
    case Bytes b of Inl e \<Rightarrow> Panic | Inr res \<Rightarrow> Return res))"

definition Encode :: "byte list \<Rightarrow> byte list \<Rightarrow> uint64 \<Rightarrow> (error + byte list) outcome" where
  "Encode private public code =
    (case validCode code of
       Some e \<Rightarrow> Return (Inl e)
     | None \<Rightarrow> obind (encodeKeypair private public code) (\<lambda>b. Return (Inr b)))"

definition EncodeName :: "byte list \<Rightarrow> byte list \<Rightarrow> string \<Rightarrow> (error + byte list) outcome" where
  "EncodeName private public name = (let code = Names_index name in Encode private public code)"

definition decodeKeypair :: "byte list \<Rightarrow> error + Keypair" where
  "decodeKeypair buf =
    (case ReadUint24LengthPrefixed buf of
       None \<Rightarrow> Inl ErrInvalidMultikeypair
     | Some (values, input) \<Rightarrow>
    if \<not> Empty input then Inl ErrInvalidMultikeypair else
    (case ReadUint16LengthPrefixed values of
       None \<Rightarrow> Inl ErrInvalidMultikeypair
     | Some (code, values) \<Rightarrow>
    (case UnpackCode code of
       Inl e \<Rightarrow> Inl e
     | Inr numCode \<Rightarrow>
    (case ReadUint16LengthPrefixed values of
       None \<Rightarrow> Inl ErrInvalidMultikeypair
     | Some (private, values) \<Rightarrow>
    (case ReadUint16LengthPrefixed values of
       None \<Rightarrow> Inl ErrInvalidMultikeypair
     | Some (public, values) \<Rightarrow>
    (case validCode numCode of
       Some e \<Rightarrow> Inl e
     | None \<Rightarrow>
       let name = Codes_index numCode;
           privateLength = int (length private);
           publicLength = int (length public)
       in Inr \<lparr>Code = numCode, Name = name, Public = public, PublicLength = publicLength,
               Private = private, PrivateLength = privateLength\<rparr>))))))"

definition Decode :: "byte list \<Rightarrow> error + Keypair" where
  "Decode m = (case decodeKeypair m of Inl e \<Rightarrow> Inl e | Inr keypair \<Rightarrow> Inr keypair)"

section \<open>recursivekey.go\<close>

text \<open>
  The loop \<open>for _, child := range children\<close> of \<open>encodeRecursivekey\<close>, on the
  builder of the outer frame. \<open>encodeKeypair\<close> runs inside the continuation, so
  it is not called once the builder holds an error.
\<close>

fun addChildren :: "Keypair list \<Rightarrow> Builder \<Rightarrow> Builder outcome" where
  "addChildren [] b = Return b"
| "addChildren (child # children) b =
    obind (AddUint16LengthPrefixed (\<lambda>b.
        obind (encodeKeypair (Private child) (Public child) (Code child)) (\<lambda>kp.
        Return (AddBytes kp b))) b) (addChildren children)"

definition encodeRecursivekey :: "byte list \<Rightarrow> Keypair list \<Rightarrow> uint64 \<Rightarrow> byte list outcome" where
  "encodeRecursivekey master children code =
    obind (PackCode code) (\<lambda>codeBuf.
    obind (PackLen (int (length children))) (\<lambda>lenBuf.
    obind (AddUint24LengthPrefixed (\<lambda>b.
        obind (AddUint16LengthPrefixed (\<lambda>b. Return (AddBytes codeBuf b)) b) (\<lambda>b.
        obind (AddUint16LengthPrefixed (\<lambda>b. Return (AddBytes master b)) b) (\<lambda>b.
        obind (AddUint16LengthPrefixed (\<lambda>b. Return (AddBytes lenBuf b)) b) (\<lambda>b.
        addChildren children b)))) newBuilder) (\<lambda>b.
    case Bytes b of Inl e \<Rightarrow> Panic | Inr res \<Rightarrow> Return res)))"

definition RecursiveEncode ::
  "byte list \<Rightarrow> Keypair list \<Rightarrow> uint64 \<Rightarrow> (error + byte list) outcome" where
  "RecursiveEncode master children code =
    (case validRecursiveCode code of
       Some e \<Rightarrow> Return (Inl e)
     | None \<Rightarrow> obind (encodeRecursivekey master children code) (\<lambda>b. Return (Inr b)))"

text \<open>
  The loop \<open>for i := 0; i < childLen; i++\<close> of \<open>decodeRecursivekey\<close>; it returns
  the keypairs and the rest of \<open>values\<close>.
\<close>

function decodeChildren ::
  "int \<Rightarrow> int \<Rightarrow> byte list \<Rightarrow> Keypair list \<Rightarrow> error + (Keypair list \<times> byte list)" where
  "decodeChildren i childLen values keypairs =
    (if i < childLen then
       (case ReadUint16LengthPrefixed values of
          None \<Rightarrow> Inl ErrInvalidMultikeypair
        | Some (children, values') \<Rightarrow>
            (case decodeKeypair children of
               Inl e \<Rightarrow> Inl e
             | Inr kp \<Rightarrow> decodeChildren (i + 1) childLen values' (keypairs @ [kp])))
     else Inr (keypairs, values))"
  by pat_completeness auto
termination
  by (relation "measure (\<lambda>(i, childLen, values, keypairs). nat (childLen - i))") auto

declare decodeChildren.simps [simp del]

definition decodeRecursivekey :: "byte list \<Rightarrow> error + Recursivekey" where
  "decodeRecursivekey buf =
    (case ReadUint24LengthPrefixed buf of
       None \<Rightarrow> Inl ErrInvalidMultikeypair
     | Some (values, input) \<Rightarrow>
    if \<not> Empty input then Inl ErrInvalidMultikeypair else
    (case ReadUint16LengthPrefixed values of
       None \<Rightarrow> Inl ErrInvalidMultikeypair
     | Some (code, values) \<Rightarrow>
    (case UnpackCode code of
       Inl e \<Rightarrow> Inl e
     | Inr numCode \<Rightarrow>
    (case ReadUint16LengthPrefixed values of
       None \<Rightarrow> Inl ErrInvalidMultikeypair
     | Some (master, values) \<Rightarrow>
    (case ReadUint16LengthPrefixed values of
       None \<Rightarrow> Inl ErrInvalidMultikeypair
     | Some (childrenNum, values) \<Rightarrow>
    (case UnpackLen childrenNum of
       Inl e \<Rightarrow> Inl e
     | Inr childLen \<Rightarrow>
    (case decodeChildren 0 childLen values [] of
       Inl e \<Rightarrow> Inl e
     | Inr (keypairs, values) \<Rightarrow>
    (case validCode numCode of
       Some e \<Rightarrow> Inl e
     | None \<Rightarrow>
       let name = Codes_index numCode;
           masterLength = int (length master)
       in Inr \<lparr>RCode = numCode, RName = name, Master = master, MasterLength = masterLength,
               ChildrenNum = childLen, Children = keypairs\<rparr>))))))))"

definition RecursiveDecode :: "byte list \<Rightarrow> error + Recursivekey" where
  "RecursiveDecode m = (case decodeRecursivekey m of Inl e \<Rightarrow> Inl e | Inr keypair \<Rightarrow> Inr keypair)"

section \<open>Wire format\<close>

text \<open>
  The byte sequences of the wire format, stated on their own: the lemmas below
  relate what the builder writes and what the reader accepts to them.
  \<open>uvarint_bytes x\<close> is the unsigned varint of \<open>x\<close>: seven bits per byte, least
  significant group first, the high bit set on every byte but the last.
\<close>

function uvarint_bytes :: "uint64 \<Rightarrow> byte list" where
  "uvarint_bytes x =
    (if x \<ge> 0x80 then (ucast x OR 0x80) # uvarint_bytes (drop_bit 7 x) else [ucast x])"
  by pat_completeness auto
termination
proof (relation "measure unat")
  show "wf (measure (unat :: uint64 \<Rightarrow> nat))" by simp
next
  fix x :: uint64
  assume "0x80 \<le> x"
  then have "128 \<le> unat x" by (simp add: word_le_nat_alt)
  then have "unat x div 128 < unat x" by simp
  then show "(drop_bit 7 x, x) \<in> measure unat"
    by (simp add: drop_bit_eq_div unat_div)
qed

declare uvarint_bytes.simps [simp del]

text \<open>
  \<open>be_bytes n l\<close> is the \<open>n\<close>-byte big-endian form of \<open>l\<close> (of \<open>l mod 256 ^ n\<close>);
  a field is a payload behind its 16-bit length, a frame a payload behind its
  24-bit length.
\<close>

fun be_bytes :: "nat \<Rightarrow> nat \<Rightarrow> byte list" where
  "be_bytes 0 l = []"
| "be_bytes (Suc n) l = be_bytes n (l div 256) @ [of_nat l]"

definition field16 :: "byte list \<Rightarrow> byte list" where
  "field16 v = be_bytes 2 (length v) @ v"

definition frame24 :: "byte list \<Rightarrow> byte list" where
  "frame24 v = be_bytes 3 (length v) @ v"

text \<open>One field whose continuation only adds bytes, as every field of a flat keypair.\<close>

definition addField :: "byte list \<Rightarrow> Builder \<Rightarrow> Builder outcome" where
  "addField v b = AddUint16LengthPrefixed (\<lambda>b. Return (AddBytes v b)) b"

text \<open>The contents of the outer frame of a keypair: its three fields.\<close>

definition keypair_payload :: "byte list \<Rightarrow> byte list \<Rightarrow> uint64 \<Rightarrow> byte list" where
  "keypair_payload private public code =
     field16 (uvarint_bytes code) @ field16 private @ field16 public"

text \<open>
  A child of a recursive key travels as its whole Multikeypair frame inside one field.
  \<open>child_fits\<close>: the child's keys fit their fields and its frame fits the field that
  carries it.
\<close>

definition child_frame :: "Keypair \<Rightarrow> byte list" where
  "child_frame k = frame24 (keypair_payload (Private k) (Public k) (Code k))"

definition child_fits :: "Keypair \<Rightarrow> bool" where
  "child_fits k \<longleftrightarrow>
     length (Private k) < 65536 \<and> length (Public k) < 65536 \<and> length (child_frame k) < 65536"

text \<open>The contents of the outer frame of a recursive key.\<close>

definition recursive_payload :: "byte list \<Rightarrow> Keypair list \<Rightarrow> uint64 \<Rightarrow> byte list" where
  "recursive_payload master children code =
     field16 (uvarint_bytes code) @ field16 master @
     field16 (uvarint_bytes (of_nat (length children))) @
     concat (map (\<lambda>k. field16 (child_frame k)) children)"

text \<open>A builder run that panicked or left the builder with an error.\<close>

definition failed :: "Builder outcome \<Rightarrow> bool" where
  "failed r = (case r of Panic \<Rightarrow> True | Return b \<Rightarrow> err b \<noteq> None)"

text \<open>
  A valid Keypair: a registered code, the name of that code, keys of at most 65535
  bytes, and length fields that are the lengths of the keys.
\<close>

definition valid_Keypair :: "Keypair \<Rightarrow> bool" where
  "valid_Keypair k \<longleftrightarrow>
     validCode (Code k) = None \<and> Name k = Codes_index (Code k) \<and>
     length (Private k) \<le> 65535 \<and> length (Public k) \<le> 65535 \<and>
     PrivateLength k = int (length (Private k)) \<and> PublicLength k = int (length (Public k))"


text \<open>
  What \<open>decodeKeypair\<close> makes of a child with a registered code: the code, the name
  of the code, the keys and their lengths.
\<close>

definition decoded_child :: "Keypair \<Rightarrow> Keypair" where
  "decoded_child k =
    \<lparr>Code = Code k, Name = Codes_index (Code k), Public = Public k,
     PublicLength = int (length (Public k)), Private = Private k,
     PrivateLength = int (length (Private k))\<rparr>"

section \<open>Varint lemmas\<close>

lemma uvarint_bytes_small: "x < 0x80 \<Longrightarrow> uvarint_bytes x = [ucast x]"
  by (subst uvarint_bytes.simps) (simp add: not_le [symmetric])

lemma uvarint_bytes_large:
  "0x80 \<le> x \<Longrightarrow> uvarint_bytes x = (ucast x OR 0x80) # uvarint_bytes (drop_bit 7 x)"
  by (subst uvarint_bytes.simps) simp

lemma uvarint_bytes_nonempty: "uvarint_bytes x \<noteq> []"
  by (subst uvarint_bytes.simps) simp

lemma Len64_zero: "Len64 0 = 0"
  by (subst Len64.simps) simp

lemma Len64_nonzero: "x \<noteq> 0 \<Longrightarrow> Len64 x = Suc (Len64 (drop_bit 1 x))"
  by (subst Len64.simps) simp

lemma Len64_drop_bit: "drop_bit k x \<noteq> 0 \<Longrightarrow> Len64 x = Len64 (drop_bit k x) + k"
proof (induction k)
  case 0
  then show ?case by simp
next
  case (Suc k)
  have e: "drop_bit (Suc k) x = drop_bit 1 (drop_bit k x)" by simp
  have nz: "drop_bit k x \<noteq> 0"
  proof
    assume "drop_bit k x = 0"
    then have "drop_bit (Suc k) x = 0" by (simp only: e) simp
    with Suc.prems show False by simp
  qed
  then have "Len64 x = Len64 (drop_bit k x) + k" by (rule Suc.IH)
  also have "Len64 (drop_bit k x) = Suc (Len64 (drop_bit 1 (drop_bit k x)))"
    using nz by (rule Len64_nonzero)
  finally show ?case by simp
qed

lemma Len64_le: "drop_bit k x = 0 \<Longrightarrow> Len64 x \<le> k"
proof (induction k arbitrary: x)
  case 0
  then show ?case by (simp add: Len64_zero)
next
  case (Suc k)
  show ?case
  proof (cases "x = 0")
    case True
    then show ?thesis by (simp add: Len64_zero)
  next
    case False
    have "drop_bit k (drop_bit 1 x) = 0"
      using Suc.prems by (simp add: drop_bit_drop_bit)
    then have "Len64 (drop_bit 1 x) \<le> k" by (rule Suc.IH)
    then show ?thesis using False by (simp add: Len64_nonzero)
  qed
qed

lemma drop7_nonzero: "(0x80 :: uint64) \<le> x \<Longrightarrow> drop_bit 7 x \<noteq> 0"
proof -
  assume "0x80 \<le> x"
  then have "128 \<le> unat x" by (simp add: word_le_nat_alt)
  then have "unat x div 128 \<noteq> 0" by simp
  then have "unat (drop_bit 7 x) \<noteq> 0" by (simp add: drop_bit_eq_div unat_div)
  then show ?thesis by auto
qed

lemma drop7_zero: "x < (0x80 :: uint64) \<Longrightarrow> drop_bit 7 x = 0"
proof -
  assume "x < 0x80"
  then have "unat x < 128" by (simp add: word_less_nat_alt)
  then have "unat (drop_bit 7 x) = 0" by (simp add: drop_bit_eq_div unat_div)
  then show ?thesis by (simp add: unat_eq_0)
qed

lemma UvarintSize_small: "x < 0x80 \<Longrightarrow> UvarintSize x = 1"
proof -
  assume "x < 0x80"
  then have "Len64 x \<le> 7" by (intro Len64_le drop7_zero)
  then have "Len64 x = 7 \<or> Len64 x < 7" by arith
  then show ?thesis by (auto simp: UvarintSize_def Let_def)
qed

lemma UvarintSize_large: "0x80 \<le> x \<Longrightarrow> UvarintSize x = Suc (UvarintSize (drop_bit 7 x))"
proof -
  assume a: "0x80 \<le> x"
  then have nz: "drop_bit 7 x \<noteq> 0" by (rule drop7_nonzero)
  then have l: "Len64 x = Len64 (drop_bit 7 x) + 7" by (rule Len64_drop_bit)
  have "0 < Len64 (drop_bit 7 x)" using nz by (simp add: Len64_nonzero)
  then have "Len64 (drop_bit 7 x) div 7 = 0 \<longrightarrow> 0 < Len64 (drop_bit 7 x) mod 7"
    by auto
  then show ?thesis by (auto simp: UvarintSize_def Let_def l)
qed

lemma UvarintSize_length: "UvarintSize x = length (uvarint_bytes x)"
proof (induction x rule: uvarint_bytes.induct)
  case (1 x)
  show ?case
  proof (cases "0x80 \<le> x")
    case True
    then show ?thesis using 1 by (simp add: UvarintSize_large uvarint_bytes_large)
  next
    case False
    then have "x < 0x80" by simp
    then show ?thesis by (simp add: UvarintSize_small uvarint_bytes_small)
  qed
qed

lemma PutUvarint_loop_bytes:
  "i + length (uvarint_bytes x) \<le> length buf \<Longrightarrow>
   PutUvarint_loop buf i x =
     Return (take i buf @ uvarint_bytes x @ drop (i + length (uvarint_bytes x)) buf,
             i + length (uvarint_bytes x))"
proof (induction buf i x rule: PutUvarint_loop.induct)
  case (1 buf i x)
  show ?case
  proof (cases "0x80 \<le> x")
    case True
    let ?b = "ucast x OR (0x80 :: byte)"
    have vb: "uvarint_bytes x = ?b # uvarint_bytes (drop_bit 7 x)"
      using True by (rule uvarint_bytes_large)
    have i: "i < length buf" using "1.prems" vb by simp
    have "PutUvarint_loop (buf[i := ?b]) (i + 1) (drop_bit 7 x) =
      Return (take (i + 1) (buf[i := ?b]) @ uvarint_bytes (drop_bit 7 x) @
              drop (i + 1 + length (uvarint_bytes (drop_bit 7 x))) (buf[i := ?b]),
              i + 1 + length (uvarint_bytes (drop_bit 7 x)))"
      using True i "1.prems" vb by (intro "1.IH") simp_all
    moreover have "take (i + 1) (buf[i := ?b]) = take i buf @ [?b]"
      using i by (simp add: take_Suc_conv_app_nth)
    ultimately show ?thesis
      using True i by (subst PutUvarint_loop.simps) (simp add: vb)
  next
    case False
    then have small: "x < 0x80" by simp
    have vb: "uvarint_bytes x = [ucast x]" using small by (rule uvarint_bytes_small)
    have i: "i < length buf" using "1.prems" vb by simp
    show ?thesis
      using False i by (subst PutUvarint_loop.simps) (simp add: vb upd_conv_take_nth_drop)
  qed
qed

lemma PackCode_bytes: "PackCode code = Return (uvarint_bytes code)"
  by (simp add: PackCode_def PutUvarint_def Let_def UvarintSize_length
      PutUvarint_loop_bytes obind_def)

lemma PackLen_bytes: "PackLen len = Return (uvarint_bytes (word_of_int len))"
  by (simp add: PackLen_def PutUvarint_def Let_def UvarintSize_length
      PutUvarint_loop_bytes obind_def)

lemma m7f64: "(0x7f :: uint64) = mask 7"
  by (simp add: mask_eq_exp_minus_1)

lemma m7f8: "(0x7f :: byte) = mask 7"
  by (simp add: mask_eq_exp_minus_1)

lemma cont_byte_ge: "\<not> (w OR (0x80 :: byte)) < 0x80"
proof -
  have "(0x80 :: byte) \<le> w OR 0x80" by (rule le_word_or1)
  then show ?thesis by simp
qed

lemma cont_byte_low: "ucast ((ucast (y :: uint64) OR 0x80 :: byte) AND 0x7f) = (y AND 0x7f :: uint64)"
proof -
  have "(ucast y OR 0x80 :: byte) AND mask 7 = ucast y AND mask 7"
    by (rule bit_eqI) (auto simp: bit_simps bit_numeral_rec split: nat.splits)
  moreover have "ucast (ucast y AND mask 7 :: byte) = (y AND mask 7 :: uint64)"
    by (rule bit_eqI) (auto simp: bit_simps)
  ultimately show ?thesis by (simp only: m7f64 m7f8)
qed

lemma split7: "(y AND 0x7f) OR push_bit 7 (drop_bit 7 y) = (y :: uint64)"
proof (rule bit_eqI)
  fix n
  show "bit ((y AND 0x7f) OR push_bit 7 (drop_bit 7 y)) n = bit y n"
    unfolding m7f64 by (cases "n < 7") (auto simp: bit_simps dest: bit_imp_le_length)
qed

lemma small_ucast_lt: "(y :: uint64) < 0x80 \<Longrightarrow> (ucast y :: byte) < 0x80"
  by (simp add: word_less_nat_alt unsigned_ucast_eq take_bit_eq_mod)

lemma small_ucast_id: "(y :: uint64) < 0x80 \<Longrightarrow> (ucast (ucast y :: byte) :: uint64) = y"
proof -
  assume "y < 0x80"
  then have "unat y < 128" by (simp add: word_less_nat_alt)
  then have "unat (ucast (ucast y :: byte) :: uint64) = unat y"
    by (simp add: unsigned_ucast_eq take_bit_eq_mod unat_mod)
  then show ?thesis by (simp only: word_unat_eq_iff)
qed

lemma tiny_ucast: "unat (y :: uint64) < 2 \<Longrightarrow> \<not> (1 :: byte) < ucast y"
  by (simp add: word_less_nat_alt unsigned_ucast_eq take_bit_eq_mod)

lemma Uvarint_loop_bytes:
  "unat y < 2 ^ (64 - 7 * i) \<Longrightarrow> i \<le> 9 \<Longrightarrow>
   Uvarint_loop (uvarint_bytes y @ rest) i acc (7 * i) =
     (acc OR push_bit (7 * i) y, int (i + length (uvarint_bytes y)))"
proof (induction y arbitrary: i acc rule: uvarint_bytes.induct)
  case (1 y)
  show ?case
  proof (cases "0x80 \<le> y")
    case True
    let ?b = "ucast y OR (0x80 :: byte)"
    have vb: "uvarint_bytes y = ?b # uvarint_bytes (drop_bit 7 y)"
      using True by (rule uvarint_bytes_large)
    have big: "128 \<le> unat y" using True by (simp add: word_le_nat_alt)
    have i8: "i \<le> 8"
    proof (rule ccontr)
      assume "\<not> i \<le> 8"
      with "1.prems" have "i = 9" by simp
      with "1.prems" big show False by simp
    qed
    have "64 - 7 * i = (64 - 7 * (i + 1)) + 7" using i8 by simp
    then have "(2::nat) ^ (64 - 7 * i) = 2 ^ ((64 - 7 * (i + 1)) + 7)" by (rule arg_cong)
    also have "\<dots> = 2 ^ (64 - 7 * (i + 1)) * 2 ^ 7" by (rule power_add)
    finally have "(2::nat) ^ (64 - 7 * i) = 2 ^ (64 - 7 * (i + 1)) * 2 ^ 7" .
    with "1.prems" have "unat y div 128 < 2 ^ (64 - 7 * (i + 1))"
      by (simp add: less_mult_imp_div_less)
    then have small': "unat (drop_bit 7 y) < 2 ^ (64 - 7 * (i + 1))"
      by (simp add: drop_bit_eq_div unat_div)
    have ih: "Uvarint_loop (uvarint_bytes (drop_bit 7 y) @ rest) (i + 1)
        (acc OR push_bit (7 * i) (ucast (?b AND 0x7f))) (7 * (i + 1)) =
      ((acc OR push_bit (7 * i) (ucast (?b AND 0x7f))) OR push_bit (7 * (i + 1)) (drop_bit 7 y),
       int (i + 1 + length (uvarint_bytes (drop_bit 7 y))))"
      by (rule "1.IH" [OF True small']) (use i8 in simp)
    have "push_bit (7 * i) (y AND 0x7f) OR push_bit (7 * (i + 1)) (drop_bit 7 y)
        = push_bit (7 * i) ((y AND 0x7f) OR push_bit 7 (drop_bit 7 y))"
      by (simp add: push_bit_or push_bit_push_bit add.commute)
    then have join: "push_bit (7 * i) (y AND 0x7f) OR push_bit (7 * (i + 1)) (drop_bit 7 y)
        = push_bit (7 * i) y"
      by (simp only: split7)
    have i10: "i \<noteq> 10" using i8 by simp
    have step: "Uvarint_loop (uvarint_bytes y @ rest) i acc (7 * i) =
       Uvarint_loop (uvarint_bytes (drop_bit 7 y) @ rest) (i + 1)
        (acc OR push_bit (7 * i) (ucast (?b AND 0x7f))) (7 * (i + 1))"
      using i10 by (simp add: vb cont_byte_ge add.commute)
    have val: "(acc OR push_bit (7 * i) (ucast (?b AND 0x7f))) OR
        push_bit (7 * (i + 1)) (drop_bit 7 y) = acc OR push_bit (7 * i) y"
      by (simp only: cont_byte_low or.assoc join)
    have len: "int (i + 1 + length (uvarint_bytes (drop_bit 7 y))) =
        int (i + length (uvarint_bytes y))"
      by (simp add: vb)
    show ?thesis by (simp only: step ih val len)
  next
    case False
    then have small: "y < 0x80" by simp
    have vb: "uvarint_bytes y = [ucast y]" using small by (rule uvarint_bytes_small)
    have nine: "i = 9 \<Longrightarrow> \<not> (1 :: byte) < ucast y"
      using "1.prems" by (intro tiny_ucast) simp
    show ?thesis
      using "1.prems" nine
      by (auto simp: vb small_ucast_lt [OF small] small_ucast_id [OF small])
  qed
qed

lemma Uvarint_bytes: "Uvarint (uvarint_bytes y @ rest) = (y, int (length (uvarint_bytes y)))"
proof -
  have "unat y < 2 ^ 64" using unsigned_less [of y] by simp
  then show ?thesis
    using Uvarint_loop_bytes [of y 0 rest 0] by (simp add: Uvarint_def)
qed

lemma UnpackCode_bytes: "UnpackCode (uvarint_bytes y @ rest) = Inr y"
  using uvarint_bytes_nonempty [of y] by (simp add: UnpackCode_def Uvarint_bytes)

lemma UnpackLen_bytes: "UnpackLen (uvarint_bytes y @ rest) = Inr (sint y)"
  using uvarint_bytes_nonempty [of y] by (simp add: UnpackLen_def Uvarint_bytes)

section \<open>Builder lemmas\<close>

lemma obind_Return [simp]: "obind (Return x) f = f x"
  by (simp add: obind_def)

lemma obind_Panic [simp]: "obind Panic f = Panic"
  by (simp add: obind_def)

lemma length_be_bytes [simp]: "length (be_bytes n l) = n"
  by (induction n arbitrary: l) simp_all

lemma length_field16 [simp]: "length (field16 v) = 2 + length v"
  by (simp add: field16_def)

lemma length_frame24 [simp]: "length (frame24 v) = 3 + length v"
  by (simp add: frame24_def)

lemma writeLength_be_bytes:
  "length pre = off \<Longrightarrow> length zs = n \<Longrightarrow>
   writeLength n off l (pre @ zs @ body) = (pre @ be_bytes n l @ body, l div 256 ^ n)"
proof (induction n arbitrary: l zs body)
  case 0
  then show ?case by simp
next
  case (Suc n)
  from Suc.prems obtain zs' z where zs: "zs = zs' @ [z]" and len: "length zs' = n"
    by (cases zs rule: rev_cases) auto
  have upd: "(pre @ zs @ body)[off + n := of_nat l] = pre @ zs' @ (of_nat l # body)"
    using Suc.prems(1) len by (simp add: zs list_update_append)
  have "writeLength n off (l div 256) (pre @ zs' @ (of_nat l # body)) =
      (pre @ be_bytes n (l div 256) @ (of_nat l # body), l div 256 div 256 ^ n)"
    using Suc.prems(1) len by (rule Suc.IH)
  then show ?case
    by (simp add: upd div_mult2_eq)
qed

lemma flushChild_eq:
  assumes "err child = None"
    and "pendingLenLen child + offset child \<le> length (result child)"
  shows "flushChild b child =
    (let payload = drop (offset child + pendingLenLen child) (result child)
     in if length payload < 256 ^ pendingLenLen child
        then Return (b\<lparr>result := take (offset child) (result child) @
               be_bytes (pendingLenLen child) (length payload) @ payload\<rparr>)
        else Return (b\<lparr>err := Some ChildLengthExceedsPrefix\<rparr>))"
proof -
  let ?r = "result child" and ?off = "offset child" and ?n = "pendingLenLen child"
  let ?pre = "take ?off ?r" and ?zs = "take ?n (drop ?off ?r)" and ?body = "drop (?off + ?n) ?r"
  have split: "?r = ?pre @ ?zs @ ?body"
    by (metis add.commute append_take_drop_id drop_drop)
  have lp: "length ?pre = ?off" and lz: "length ?zs = ?n"
    using assms(2) by simp_all
  have lb: "length ?r - ?n - ?off = length ?body" by simp
  have "writeLength ?n ?off (length ?body) (?pre @ ?zs @ ?body) =
      (?pre @ be_bytes ?n (length ?body) @ ?body, length ?body div 256 ^ ?n)"
    using lp lz by (rule writeLength_be_bytes)
  then have w: "writeLength ?n ?off (length ?r - ?n - ?off) ?r =
      (?pre @ be_bytes ?n (length ?body) @ ?body, length ?body div 256 ^ ?n)"
    using split lb by simp
  have nz: "(length ?body div 256 ^ ?n \<noteq> 0) = (\<not> length ?body < 256 ^ ?n)"
    by (simp add: div_eq_0_iff)
  have c1: "(err child \<noteq> None) = False" using assms(1) by simp
  have c2: "(length ?r < ?n + ?off) = False" using assms(2) by simp
  show ?thesis
    unfolding flushChild_def Let_def c1 c2 if_False w prod.case nz
    by (cases "length ?body < 256 ^ ?n") simp_all
qed

lemma flushChild_child_err:
  "err child \<noteq> None \<Longrightarrow> flushChild b child = Return (b\<lparr>err := err child\<rparr>)"
  by (simp add: flushChild_def)

lemma addLengthPrefixed_run:
  "err b = None \<Longrightarrow>
   addLengthPrefixed n f b =
     obind (f \<lparr>err = None, result = result b @ replicate n 0,
               offset = length (result b), pendingLenLen = n\<rparr>)
           (flushChild (b\<lparr>result := result b @ replicate n 0\<rparr>))"
  by (simp add: addLengthPrefixed_def Let_def add_def)

lemma addLengthPrefixed_err:
  "err b \<noteq> None \<Longrightarrow> addLengthPrefixed n f b = Return b"
  by (simp add: addLengthPrefixed_def)

lemma addField_fold: "AddUint16LengthPrefixed (\<lambda>b. Return (AddBytes v b)) = addField v"
  by (rule ext) (simp add: addField_def)

lemma addField_fits:
  "err b = None \<Longrightarrow> length v < 65536 \<Longrightarrow>
   addField v b = Return (b\<lparr>result := result b @ field16 v\<rparr>)"
  by (simp add: addField_def AddUint16LengthPrefixed_def addLengthPrefixed_run
      AddBytes_def add_def flushChild_eq Let_def field16_def)

lemma addField_exceeds:
  "err b = None \<Longrightarrow> \<not> length v < 65536 \<Longrightarrow>
   addField v b =
     Return (b\<lparr>result := result b @ [0, 0], err := Some ChildLengthExceedsPrefix\<rparr>)"
  by (simp add: addField_def AddUint16LengthPrefixed_def addLengthPrefixed_run
      AddBytes_def add_def flushChild_eq Let_def numeral_2_eq_2)

lemma addField_err: "err b \<noteq> None \<Longrightarrow> addField v b = Return b"
  by (simp add: addField_def AddUint16LengthPrefixed_def addLengthPrefixed_err)

lemma Len64_le_64: "Len64 x \<le> 64"
proof -
  have "unat x < 2 ^ 64" using unsigned_less [of x] by simp
  then have "unat (drop_bit 64 x) = 0" by (simp add: drop_bit_eq_div unat_div)
  then have "drop_bit 64 x = 0" by (simp add: unat_eq_0)
  then show ?thesis by (rule Len64_le)
qed

lemma length_uvarint_bytes_le: "length (uvarint_bytes x) \<le> 10"
proof -
  have "UvarintSize x \<le> 10"
    using Len64_le_64 [of x] by (auto simp: UvarintSize_def Let_def)
  then show ?thesis by (simp add: UvarintSize_length)
qed

lemma encodeKeypair_unfold:
  "encodeKeypair private public code =
    obind (AddUint24LengthPrefixed (\<lambda>b.
        obind (addField (uvarint_bytes code) b) (\<lambda>b.
        obind (addField private b) (addField public))) newBuilder) (\<lambda>b.
    case Bytes b of Inl e \<Rightarrow> Panic | Inr res \<Rightarrow> Return res)"
  by (simp add: encodeKeypair_def PackCode_bytes addField_fold)

lemma encodeKeypair_fits:
  assumes "length private < 65536" and "length public < 65536"
  shows "encodeKeypair private public code =
    Return (frame24 (keypair_payload private public code))"
proof -
  have c: "length (uvarint_bytes code) < 65536"
    using length_uvarint_bytes_le [of code] by simp
  have "length (keypair_payload private public code) < 256 ^ 3"
    using assms c by (simp add: keypair_payload_def)
  then show ?thesis
    using assms c
    by (simp add: encodeKeypair_unfold AddUint24LengthPrefixed_def addLengthPrefixed_run
        newBuilder_def addField_fits flushChild_eq Let_def Bytes_def frame24_def
        keypair_payload_def)
qed

lemma encodeKeypair_panics:
  assumes "\<not> (length private < 65536 \<and> length public < 65536)"
  shows "encodeKeypair private public code = Panic"
proof -
  have c: "length (uvarint_bytes code) < 65536"
    using length_uvarint_bytes_le [of code] by simp
  show ?thesis
  proof (cases "length private < 65536")
    case True
    with assms have "\<not> length public < 65536" by simp
    then show ?thesis
      using True c
      by (simp add: encodeKeypair_unfold AddUint24LengthPrefixed_def addLengthPrefixed_run
          newBuilder_def addField_fits addField_exceeds flushChild_child_err
          Bytes_def)
  next
    case False
    then show ?thesis
      using c
      by (simp add: encodeKeypair_unfold AddUint24LengthPrefixed_def addLengthPrefixed_run
          newBuilder_def addField_fits addField_exceeds addField_err
          flushChild_child_err Bytes_def)
  qed
qed

section \<open>Reader lemmas\<close>

lemma unat_byte_lt: "unat (a :: byte) < 256"
proof -
  have "unat a < 2 ^ LENGTH(8)" by (rule unsigned_less)
  then show ?thesis by simp
qed

lemma unat_ucast_byte: "unat (ucast (a :: byte) :: uint32) = unat a"
  using unat_byte_lt [of a] by (simp add: unsigned_ucast_eq take_bit_eq_mod)

lemma unat_push8: "unat (len :: uint32) < 2 ^ 24 \<Longrightarrow> unat (push_bit 8 len) = unat len * 256"
proof -
  assume "unat len < 2 ^ 24"
  then have "unat len * 256 < 2 ^ 32" by simp
  then have "take_bit 32 (unat len * 256) = unat len * 256"
    by (simp only: take_bit_nat_eq_self_iff)
  moreover have "unat (push_bit 8 len) = take_bit LENGTH(32) (push_bit 8 (unat len))"
    by (rule unsigned_push_bit_eq)
  moreover have "push_bit 8 (unat len) = unat len * 256"
    by (simp add: push_bit_eq_mult)
  ultimately show ?thesis by simp
qed

lemma length_step:
  "unat (len :: uint32) < 2 ^ 24 \<Longrightarrow>
   unat (push_bit 8 len OR ucast (b :: byte)) = unat len * 256 + unat b"
proof -
  assume small: "unat len < 2 ^ 24"
  have "push_bit 8 len + (ucast b :: uint32) = push_bit 8 len OR ucast b"
    by (rule disjunctive_add) (auto simp: bit_simps dest: bit_imp_le_length)
  then have "unat (push_bit 8 len OR ucast b) = unat (push_bit 8 len + (ucast b :: uint32))"
    by simp
  also have "\<dots> = (unat (push_bit 8 len) + unat (ucast b :: uint32)) mod 2 ^ 32"
    by (simp only: unat_word_ariths) simp
  also have "\<dots> = (unat len * 256 + unat b) mod 2 ^ 32"
    using small by (simp only: unat_push8 unat_ucast_byte)
  also have "\<dots> = unat len * 256 + unat b"
    using small unat_byte_lt [of b] by simp
  finally show ?thesis .
qed

lemma ReadUint16_short: "length s < 2 \<Longrightarrow> ReadUint16LengthPrefixed s = None"
  by (simp add: ReadUint16LengthPrefixed_def readLengthPrefixed_def read_def)

lemma ReadUint24_short: "length s < 3 \<Longrightarrow> ReadUint24LengthPrefixed s = None"
  by (simp add: ReadUint24LengthPrefixed_def readLengthPrefixed_def read_def)

lemma ReadUint16_cons:
  "ReadUint16LengthPrefixed (a # b # rest) = read (unat a * 256 + unat b) rest"
proof -
  have "unat (ucast a :: uint32) < 2 ^ 24"
    using unat_byte_lt [of a] by (simp only: unat_ucast_byte) simp
  then have "unat (push_bit 8 (ucast a :: uint32) OR ucast b) = unat (ucast a :: uint32) * 256 + unat b"
    by (rule length_step)
  then have "unat (push_bit 8 (ucast a :: uint32) OR ucast b) = unat a * 256 + unat b"
    by (simp only: unat_ucast_byte)
  then show ?thesis
    by (simp add: ReadUint16LengthPrefixed_def readLengthPrefixed_def read_def)
qed

lemma ReadUint24_cons:
  "ReadUint24LengthPrefixed (a # b # c # rest) =
     read (unat a * 65536 + unat b * 256 + unat c) rest"
proof -
  have "unat (ucast a :: uint32) < 2 ^ 24"
    using unat_byte_lt [of a] by (simp only: unat_ucast_byte) simp
  then have "unat (push_bit 8 (ucast a :: uint32) OR ucast b) = unat (ucast a :: uint32) * 256 + unat b"
    by (rule length_step)
  then have ab: "unat (push_bit 8 (ucast a :: uint32) OR ucast b) = unat a * 256 + unat b"
    by (simp only: unat_ucast_byte)
  have "unat (push_bit 8 (ucast a :: uint32) OR ucast b) < 2 ^ 24"
    using unat_byte_lt [of a] unat_byte_lt [of b] by (simp only: ab) simp
  then have "unat (push_bit 8 (push_bit 8 (ucast a :: uint32) OR ucast b) OR ucast c) =
      unat (push_bit 8 (ucast a :: uint32) OR ucast b) * 256 + unat c"
    by (rule length_step)
  then have "unat (push_bit 8 (push_bit 8 (ucast a :: uint32) OR ucast b) OR ucast c) =
      unat a * 65536 + unat b * 256 + unat c"
    by (simp only: ab) simp
  then show ?thesis
    by (simp add: ReadUint24LengthPrefixed_def readLengthPrefixed_def read_def)
qed

lemma be_bytes_2: "be_bytes 2 l = [of_nat (l div 256), of_nat l]"
  by (simp add: numeral_2_eq_2)

lemma be_bytes_3: "be_bytes 3 l = [of_nat (l div 65536), of_nat (l div 256), of_nat l]"
proof -
  have "l div 256 div 256 = l div 65536" by (simp add: div_mult2_eq [symmetric])
  then show ?thesis by (simp add: numeral_3_eq_3)
qed

lemma unat_byte_of_nat: "unat (of_nat l :: byte) = l mod 256"
  by (simp add: unat_of_nat)

lemma ReadUint16_be_bytes:
  "n < 65536 \<Longrightarrow> ReadUint16LengthPrefixed (be_bytes 2 n @ rest) = read n rest"
proof -
  assume n: "n < 65536"
  then have "n div 256 < 256" by simp
  then have "n div 256 mod 256 * 256 + n mod 256 = n" by simp
  then show ?thesis
    by (simp add: be_bytes_2 ReadUint16_cons unat_byte_of_nat)
qed

lemma ReadUint24_be_bytes:
  "n < 16777216 \<Longrightarrow> ReadUint24LengthPrefixed (be_bytes 3 n @ rest) = read n rest"
proof -
  assume n: "n < 16777216"
  then have "n div 65536 < 256" by simp
  then have c: "n div 65536 mod 256 = n div 65536" by simp
  have a: "n mod (256 * 256) = 256 * (n div 256 mod 256) + n mod 256"
    by (rule mod_mult2_eq)
  have "n div 65536 mod 256 * 65536 + n div 256 mod 256 * 256 + n mod 256 =
      n div 65536 * 65536 + (256 * (n div 256 mod 256) + n mod 256)"
    by (simp only: c)
  also have "\<dots> = n div 65536 * 65536 + n mod 65536"
    using a by simp
  also have "\<dots> = n" by (rule div_mult_mod_eq)
  finally have d: "n div 65536 mod 256 * 65536 + n div 256 mod 256 * 256 + n mod 256 = n" .
  then have "n div 65536 * 65536 + n div 256 mod 256 * 256 + n mod 256 = n"
    by (simp only: c)
  with d have "unat (of_nat (n div 65536) :: byte) * 65536 +
      unat (of_nat (n div 256) :: byte) * 256 + unat (of_nat n :: byte) = n"
    by (simp only: unat_byte_of_nat)
  then show ?thesis
    by (simp add: be_bytes_3 ReadUint24_cons)
qed

lemma read_append: "read (length v) (v @ rest) = Some (v, rest)"
  by (simp add: read_def)

lemma ReadUint16_field16:
  "length v < 65536 \<Longrightarrow> ReadUint16LengthPrefixed (field16 v @ rest) = Some (v, rest)"
  by (simp add: field16_def ReadUint16_be_bytes read_append)

lemma ReadUint24_frame24:
  "length v < 16777216 \<Longrightarrow> ReadUint24LengthPrefixed (frame24 v @ rest) = Some (v, rest)"
  by (simp add: frame24_def ReadUint24_be_bytes read_append)

section \<open>Decoder lemmas\<close>

lemma ReadUint24_frame24_exact:
  "length v < 16777216 \<Longrightarrow> ReadUint24LengthPrefixed (frame24 v) = Some (v, [])"
  using ReadUint24_frame24 [of v "[]"] by simp

lemma validCode_iff:
  "validCode code = None \<longleftrightarrow> code \<in> {IDENTITY, ED_25519, BIP_32, DSA, RSA}"
  by (auto simp: validCode_def Codes_def)

lemma validCode_cases: "validCode code = None \<or> validCode code = Some ErrUnknownCode"
  by (simp add: validCode_def Codes_def)

lemma decodeKeypair_frame:
  assumes "length c < 65536" and "length p < 65536" and "length q < 65536"
    and "length (field16 c @ field16 p @ field16 q @ extra) < 16777216"
  shows "decodeKeypair (frame24 (field16 c @ field16 p @ field16 q @ extra)) =
    (case UnpackCode c of
       Inl e \<Rightarrow> Inl e
     | Inr numCode \<Rightarrow>
         (case validCode numCode of
            Some e \<Rightarrow> Inl e
          | None \<Rightarrow> Inr \<lparr>Code = numCode, Name = Codes_index numCode, Public = q,
                 PublicLength = int (length q), Private = p,
                 PrivateLength = int (length p)\<rparr>))"
  using assms
  by (simp add: decodeKeypair_def ReadUint24_frame24_exact ReadUint16_field16 Empty_def
      Let_def del: length_append split: sum.splits option.splits)

lemma Encode_fits:
  assumes "validCode code = None" and "length private < 65536" and "length public < 65536"
  shows "Encode private public code =
    Return (Inr (frame24 (keypair_payload private public code)))"
  using assms by (simp add: Encode_def encodeKeypair_fits)

lemma decodeKeypair_payload:
  assumes "validCode code = None" and "length private < 65536" and "length public < 65536"
  shows "decodeKeypair (frame24 (keypair_payload private public code)) =
    Inr \<lparr>Code = code, Name = Codes_index code, Public = public,
         PublicLength = int (length public), Private = private,
         PrivateLength = int (length private)\<rparr>"
proof -
  have c: "length (uvarint_bytes code) < 65536"
    using length_uvarint_bytes_le [of code] by simp
  have "length (field16 (uvarint_bytes code) @ field16 private @ field16 public @ []) < 16777216"
    using assms c by simp
  from decodeKeypair_frame [OF c assms(2) assms(3) this]
  show ?thesis
    using assms(1) UnpackCode_bytes [of code "[]"] by (simp add: keypair_payload_def)
qed

section \<open>Varint boundaries and names\<close>

lemma Uvarint_loop_overflow:
  "i \<le> 10 \<Longrightarrow> 10 - i < length buf \<Longrightarrow> \<forall>b \<in> set (take (10 - i) buf). 0x80 \<le> b \<Longrightarrow>
   Uvarint_loop buf i x s = (0, - 11)"
proof (induction buf arbitrary: i x s)
  case Nil
  then show ?case by simp
next
  case (Cons b bs)
  show ?case
  proof (cases "i = 10")
    case True
    then show ?thesis by simp
  next
    case False
    with Cons.prems have i: "i < 10" by simp
    then have "10 - i = Suc (10 - (i + 1))" by simp
    then have t: "take (10 - i) (b # bs) = b # take (10 - (i + 1)) bs"
      by (simp only: take_Suc_Cons)
    from Cons.prems(3) have b: "\<not> b < 0x80" and rest: "\<forall>b \<in> set (take (10 - (i + 1)) bs). 0x80 \<le> b"
      unfolding t by (simp_all add: not_less)
    have "Uvarint_loop bs (i + 1) (x OR push_bit s (ucast (b AND 0x7f))) (s + 7) = (0, - 11)"
      using i Cons.prems(2) rest by (intro Cons.IH) simp_all
    then show ?thesis using False b by simp
  qed
qed

lemma Uvarint_loop_short:
  "i + length buf \<le> 10 \<Longrightarrow> \<forall>b \<in> set buf. 0x80 \<le> b \<Longrightarrow> Uvarint_loop buf i x s = (0, 0)"
proof (induction buf arbitrary: i x s)
  case Nil
  then show ?case by simp
next
  case (Cons b bs)
  then have "i \<noteq> 10" and "\<not> b < 0x80" by (simp_all add: not_less)
  moreover have "Uvarint_loop bs (i + 1) (x OR push_bit s (ucast (b AND 0x7f))) (s + 7) = (0, 0)"
    using Cons.prems by (intro Cons.IH) simp_all
  ultimately show ?case by simp
qed

lemma Encode_not_unknown:
  "validCode code = None \<Longrightarrow> Encode private public code \<noteq> Return (Inl ErrUnknownCode)"
  by (cases "encodeKeypair private public code") (simp_all add: Encode_def)

lemma Names_index_absent: "name \<notin> set (map fst Names) \<Longrightarrow> Names_index name = IDENTITY"
  by (simp add: Names_index_def Names_def IDENTITY_def)

lemma validCode_IDENTITY: "validCode IDENTITY = None"
  by (simp add: validCode_def Codes_def)

lemma Codes_index_IDENTITY: "Codes_index IDENTITY = ''identity''"
  by (simp add: Codes_index_def Codes_def)

section \<open>Reader lemmas: what a successful read tells\<close>

lemma byte_of_nat_low: "(of_nat (k * 256 + unat (b :: byte)) :: byte) = b"
proof -
  have "unat (of_nat (k * 256 + unat b) :: byte) = (k * 256 + unat b) mod 256"
    by (rule unat_byte_of_nat)
  also have "\<dots> = unat b" using unat_byte_lt [of b] by simp
  finally show ?thesis by (simp only: word_unat_eq_iff)
qed

lemma byte_of_nat_unat: "(of_nat (unat (a :: byte)) :: byte) = a"
  by simp

lemma be_bytes_2_unat: "be_bytes 2 (unat (a :: byte) * 256 + unat (b :: byte)) = [a, b]"
proof -
  have d: "(unat a * 256 + unat b) div 256 = unat a"
    using unat_byte_lt [of b] by simp
  show ?thesis
    unfolding be_bytes_2 d byte_of_nat_low byte_of_nat_unat ..
qed

lemma be_bytes_3_unat:
  "be_bytes 3 (unat (a :: byte) * 65536 + unat (b :: byte) * 256 + unat (c :: byte)) = [a, b, c]"
proof -
  have n: "unat a * 65536 + unat b * 256 + unat c = (unat a * 256 + unat b) * 256 + unat c"
    by simp
  have d1: "((unat a * 256 + unat b) * 256 + unat c) div 256 = unat a * 256 + unat b"
    using unat_byte_lt [of c] by simp
  have "((unat a * 256 + unat b) * 256 + unat c) div 65536 =
      ((unat a * 256 + unat b) * 256 + unat c) div 256 div 256"
    by (simp add: div_mult2_eq [symmetric])
  also have "\<dots> = unat a" using unat_byte_lt [of b] unfolding d1 by simp
  finally have d2: "((unat a * 256 + unat b) * 256 + unat c) div 65536 = unat a" .
  show ?thesis
    unfolding n be_bytes_3 d1 d2 byte_of_nat_low byte_of_nat_unat ..
qed

lemma read_SomeD: "read n s = Some (v, rest) \<Longrightarrow> s = v @ rest \<and> length v = n"
  by (auto simp: read_def split: if_splits)

lemma ReadUint16_SomeD:
  assumes "ReadUint16LengthPrefixed s = Some (v, rest)"
  shows "s = field16 v @ rest \<and> length v < 65536"
proof -
  from assms have "\<not> length s < 2" using ReadUint16_short [of s] by auto
  then obtain a b t where s: "s = a # b # t"
    by (cases s; cases "tl s") auto
  from assms have r: "read (unat a * 256 + unat b) t = Some (v, rest)"
    by (simp add: s ReadUint16_cons)
  then have t: "t = v @ rest" and l: "length v = unat a * 256 + unat b"
    by (auto dest: read_SomeD)
  have "length v < 65536" using unat_byte_lt [of a] unat_byte_lt [of b] l by simp
  then show ?thesis
    by (simp add: s t field16_def l be_bytes_2_unat)
qed

lemma ReadUint24_SomeD:
  assumes "ReadUint24LengthPrefixed s = Some (v, rest)"
  shows "s = frame24 v @ rest \<and> length v < 16777216"
proof -
  from assms have "\<not> length s < 3" using ReadUint24_short [of s] by auto
  then obtain a b c t where s: "s = a # b # c # t"
    by (cases s; cases "tl s"; cases "tl (tl s)") auto
  from assms have r: "read (unat a * 65536 + unat b * 256 + unat c) t = Some (v, rest)"
    by (simp add: s ReadUint24_cons)
  then have t: "t = v @ rest" and l: "length v = unat a * 65536 + unat b * 256 + unat c"
    by (auto dest: read_SomeD)
  have "length v < 16777216"
    using unat_byte_lt [of a] unat_byte_lt [of b] unat_byte_lt [of c] l by simp
  then show ?thesis
    by (simp add: s t frame24_def l be_bytes_3_unat)
qed

section \<open>Recursive key: builder lemmas\<close>

lemma addChild_step:
  "AddUint16LengthPrefixed (\<lambda>b.
        obind (encodeKeypair (Private child) (Public child) (Code child)) (\<lambda>kp.
        Return (AddBytes kp b))) b =
   (if err b \<noteq> None then Return b
    else if length (Private child) < 65536 \<and> length (Public child) < 65536
      then addField (child_frame child) b
      else Panic)"
proof (cases "err b = None")
  case False
  then show ?thesis by (simp add: AddUint16LengthPrefixed_def addLengthPrefixed_err)
next
  case True
  show ?thesis
  proof (cases "length (Private child) < 65536 \<and> length (Public child) < 65536")
    case fits: True
    then have "encodeKeypair (Private child) (Public child) (Code child) =
        Return (child_frame child)"
      by (simp add: encodeKeypair_fits child_frame_def)
    then show ?thesis using True fits by (simp add: addField_fold)
  next
    case nofit: False
    then have "encodeKeypair (Private child) (Public child) (Code child) = Panic"
      by (rule encodeKeypair_panics)
    then show ?thesis
      using True nofit by (auto simp: AddUint16LengthPrefixed_def addLengthPrefixed_run)
  qed
qed

lemma addChildren_err: "err b \<noteq> None \<Longrightarrow> addChildren children b = Return b"
  by (induction children arbitrary: b) (simp_all add: addChild_step)

lemma addChildren_fits:
  "err b = None \<Longrightarrow> \<forall>k \<in> set children. child_fits k \<Longrightarrow>
   addChildren children b =
     Return (b\<lparr>result := result b @ concat (map (\<lambda>k. field16 (child_frame k)) children)\<rparr>)"
proof (induction children arbitrary: b)
  case Nil
  then show ?case by simp
next
  case (Cons child children)
  from Cons.prems have c: "child_fits child" and r: "\<forall>k \<in> set children. child_fits k"
    by simp_all
  let ?b1 = "b\<lparr>result := result b @ field16 (child_frame child)\<rparr>"
  have e: "err ?b1 = None" using Cons.prems(1) by simp
  have "addChildren (child # children) b = addChildren children ?b1"
    using Cons.prems(1) c by (simp add: addChild_step child_fits_def addField_fits)
  also have "\<dots> = Return (?b1\<lparr>result := result ?b1 @
      concat (map (\<lambda>k. field16 (child_frame k)) children)\<rparr>)"
    using e r by (rule Cons.IH)
  finally show ?case by simp
qed

lemma addChildren_bad:
  "err b = None \<Longrightarrow> \<not> (\<forall>k \<in> set children. child_fits k) \<Longrightarrow>
   failed (addChildren children b)"
proof (induction children arbitrary: b)
  case Nil
  then show ?case by simp
next
  case (Cons child children)
  show ?case
  proof (cases "length (Private child) < 65536 \<and> length (Public child) < 65536")
    case False
    then show ?thesis using Cons.prems(1) by (auto simp: addChild_step failed_def)
  next
    case keys: True
    show ?thesis
    proof (cases "length (child_frame child) < 65536")
      case False
      then show ?thesis
        using Cons.prems(1) keys
        by (simp add: addChild_step addField_exceeds addChildren_err failed_def)
    next
      case True
      with keys have "child_fits child" by (simp add: child_fits_def)
      with Cons.prems(2) have r: "\<not> (\<forall>k \<in> set children. child_fits k)" by simp
      let ?b1 = "b\<lparr>result := result b @ field16 (child_frame child)\<rparr>"
      have e: "err ?b1 = None" using Cons.prems(1) by simp
      have "failed (addChildren children ?b1)" using e r by (rule Cons.IH)
      then show ?thesis
        using Cons.prems(1) keys True by (simp add: addChild_step addField_fits)
    qed
  qed
qed

lemma encodeRecursivekey_unfold:
  "encodeRecursivekey master children code =
    obind (AddUint24LengthPrefixed (\<lambda>b.
        obind (addField (uvarint_bytes code) b) (\<lambda>b.
        obind (addField master b) (\<lambda>b.
        obind (addField (uvarint_bytes (of_nat (length children))) b)
          (addChildren children)))) newBuilder) (\<lambda>b.
    case Bytes b of Inl e \<Rightarrow> Panic | Inr res \<Rightarrow> Return res)"
  by (simp add: encodeRecursivekey_def PackCode_bytes PackLen_bytes addField_fold)

lemma encodeRecursivekey_fits:
  assumes "length master < 65536" and "\<forall>k \<in> set children. child_fits k"
    and "length (recursive_payload master children code) < 16777216"
  shows "encodeRecursivekey master children code =
    Return (frame24 (recursive_payload master children code))"
proof -
  have c: "length (uvarint_bytes code) < 65536"
    using length_uvarint_bytes_le [of code] by simp
  have n: "length (uvarint_bytes (of_nat (length children))) < 65536"
    using length_uvarint_bytes_le [of "of_nat (length children)"] by simp
  have l: "length (recursive_payload master children code) < 256 ^ 3"
    using assms(3) by simp
  show ?thesis
    using assms(1,2) c n l
    by (simp add: encodeRecursivekey_unfold AddUint24LengthPrefixed_def addLengthPrefixed_run
        newBuilder_def addField_fits addChildren_fits flushChild_eq Let_def Bytes_def
        frame24_def recursive_payload_def)
qed

lemma failed_finish:
  "failed r \<Longrightarrow>
   obind (obind r (flushChild b))
     (\<lambda>b. case Bytes b of Inl e \<Rightarrow> Panic | Inr res \<Rightarrow> Return res) = Panic"
  by (cases r) (auto simp: failed_def flushChild_child_err Bytes_def)

lemma encodeRecursivekey_panics:
  assumes "\<not> (length master < 65536 \<and> (\<forall>k \<in> set children. child_fits k) \<and>
    length (recursive_payload master children code) < 16777216)"
  shows "encodeRecursivekey master children code = Panic"
proof -
  have c: "length (uvarint_bytes code) < 65536"
    using length_uvarint_bytes_le [of code] by simp
  have n: "length (uvarint_bytes (of_nat (length children))) < 65536"
    using length_uvarint_bytes_le [of "of_nat (length children)"] by simp
  show ?thesis
  proof (cases "length master < 65536")
    case False
    then show ?thesis
      using c n
      by (simp add: encodeRecursivekey_unfold AddUint24LengthPrefixed_def
          addLengthPrefixed_run newBuilder_def addField_fits addField_exceeds addField_err
          addChildren_err flushChild_child_err Bytes_def)
  next
    case master: True
    show ?thesis
    proof (cases "\<forall>k \<in> set children. child_fits k")
      case False
      let ?b3 = "\<lparr>err = None,
        result = [0, 0, 0] @ field16 (uvarint_bytes code) @ field16 master @
          field16 (uvarint_bytes (of_nat (length children))),
        offset = 0, pendingLenLen = 3\<rparr>"
      have "failed (addChildren children ?b3)"
        using False by (intro addChildren_bad) simp_all
      then have "obind (obind (addChildren children ?b3)
            (flushChild (newBuilder\<lparr>result := result newBuilder @ replicate 3 0\<rparr>)))
          (\<lambda>b. case Bytes b of Inl e \<Rightarrow> Panic | Inr res \<Rightarrow> Return res) = Panic"
        by (rule failed_finish)
      then show ?thesis
        using master c n
        by (simp add: encodeRecursivekey_unfold AddUint24LengthPrefixed_def
            addLengthPrefixed_run newBuilder_def addField_fits numeral_3_eq_3)
    next
      case True
      with master assms have "\<not> length (recursive_payload master children code) < 256 ^ 3"
        by simp
      then show ?thesis
        using master True c n
        by (simp add: encodeRecursivekey_unfold AddUint24LengthPrefixed_def
            addLengthPrefixed_run newBuilder_def addField_fits addChildren_fits flushChild_eq
            Let_def Bytes_def recursive_payload_def)
    qed
  qed
qed

section \<open>Recursive key: decoder lemmas\<close>

lemma decodeChildren_fields:
  "list_all2 (\<lambda>f kp. length f < 65536 \<and> decodeKeypair f = Inr kp) fs kps \<Longrightarrow>
   childLen = i + int (length fs) \<Longrightarrow>
   decodeChildren i childLen (concat (map field16 fs) @ rest) acc = Inr (acc @ kps, rest)"
proof (induction fs kps arbitrary: i acc rule: list_all2_induct)
  case Nil
  then show ?case by (subst decodeChildren.simps) simp
next
  case (Cons f fs kp kps)
  have "decodeChildren (i + 1) childLen (concat (map field16 fs) @ rest) (acc @ [kp]) =
      Inr ((acc @ [kp]) @ kps, rest)"
    using Cons.prems by (intro Cons.IH) simp
  then show ?case
    using Cons.hyps(1) Cons.prems
    by (subst decodeChildren.simps) (simp add: ReadUint16_field16)
qed


lemma decodeRecursivekey_frame:
  assumes "length c < 65536" and "length m < 65536" and "length n < 65536"
    and "list_all2 (\<lambda>f kp. length f < 65536 \<and> decodeKeypair f = Inr kp) fs kps"
    and "UnpackCode c = Inr numCode"
    and "UnpackLen n = Inr (int (length fs))"
    and "length (field16 c @ field16 m @ field16 n @ concat (map field16 fs) @ extra) < 16777216"
  shows "decodeRecursivekey
      (frame24 (field16 c @ field16 m @ field16 n @ concat (map field16 fs) @ extra)) =
    (case validCode numCode of
       Some e \<Rightarrow> Inl e
     | None \<Rightarrow> Inr \<lparr>RCode = numCode, RName = Codes_index numCode, Master = m,
         MasterLength = int (length m), ChildrenNum = int (length fs), Children = kps\<rparr>)"
proof -
  have d: "decodeChildren 0 (int (length fs)) (concat (map field16 fs) @ extra) [] =
      Inr ([] @ kps, extra)"
    using assms(4) by (rule decodeChildren_fields) simp
  show ?thesis
    using assms(1,2,3,5,6,7) d
    by (simp add: decodeRecursivekey_def ReadUint24_frame24_exact ReadUint16_field16 Empty_def
        Let_def del: length_append split: option.splits)
qed

lemma Decode_eq: "Decode m = decodeKeypair m"
  by (simp add: Decode_def split: sum.splits)

lemma RecursiveDecode_eq: "RecursiveDecode m = decodeRecursivekey m"
  by (simp add: RecursiveDecode_def split: sum.splits)

lemma decodeKeypair_child_frame:
  "valid_Keypair k \<Longrightarrow> decodeKeypair (child_frame k) = Inr k"
  by (cases k) (simp add: valid_Keypair_def child_frame_def decodeKeypair_payload)

lemma length_children_le:
  "length children \<le> length (concat (map (\<lambda>k. field16 (child_frame k)) children))"
  by (induction children) simp_all

lemma length_children_payload:
  "length children \<le> length (recursive_payload master children code)"
  using length_children_le [of children] by (simp add: recursive_payload_def)

lemma sint_of_nat_small: "n < 2 ^ 63 \<Longrightarrow> sint (of_nat n :: uint64) = int n"
proof -
  assume "n < 2 ^ 63"
  then have "int n < 2 ^ 63" by (simp flip: of_nat_less_iff)
  then have "signed_take_bit 63 (int n) = int n"
    by (intro signed_take_bit_int_eq_self) simp_all
  then show ?thesis by (simp add: signed_of_nat)
qed

lemma children_fields:
  "concat (map (\<lambda>k. field16 (child_frame k)) children) =
   concat (map field16 (map child_frame children))"
  by (simp add: comp_def)

lemma decodeRecursivekey_payload:
  assumes "validCode code = None"
    and "length master < 65536"
    and "\<forall>k \<in> set children. valid_Keypair k \<and> length (child_frame k) < 65536"
    and "length (recursive_payload master children code) < 16777216"
  shows "decodeRecursivekey (frame24 (recursive_payload master children code)) =
    Inr \<lparr>RCode = code, RName = Codes_index code, Master = master,
         MasterLength = int (length master), ChildrenNum = int (length children),
         Children = children\<rparr>"
proof -
  let ?n = "uvarint_bytes (of_nat (length children))"
  let ?fs = "map child_frame children"
  have c: "length (uvarint_bytes code) < 65536"
    using length_uvarint_bytes_le [of code] by simp
  have n: "length ?n < 65536"
    using length_uvarint_bytes_le [of "of_nat (length children)"] by simp
  have all: "list_all2 (\<lambda>f kp. length f < 65536 \<and> decodeKeypair f = Inr kp) ?fs children"
    using assms(3) by (simp add: list_all2_map1 list_all2_same decodeKeypair_child_frame)
  have "length children < 2 ^ 63"
    using length_children_payload [of children master code] assms(4) by simp
  then have len: "UnpackLen ?n = Inr (int (length ?fs))"
    using UnpackLen_bytes [of "of_nat (length children)" "[]"] by (simp add: sint_of_nat_small)
  have code: "UnpackCode (uvarint_bytes code) = Inr code"
    using UnpackCode_bytes [of code "[]"] by simp
  have total: "length (field16 (uvarint_bytes code) @ field16 master @ field16 ?n @
      concat (map field16 ?fs) @ []) < 16777216"
    using assms(4) by (simp add: recursive_payload_def comp_def)
  from decodeRecursivekey_frame [OF c assms(2) n all code len total]
  show ?thesis
    using assms(1) by (simp add: recursive_payload_def comp_def)
qed

lemma uvarint_bytes_length_small: "x < 0x80 \<Longrightarrow> length (uvarint_bytes x) = 1"
  by (simp add: uvarint_bytes_small)

section \<open>Malformed frames\<close>


lemma UnpackCode_errors:
  "UnpackCode c = Inl e \<Longrightarrow> e = ErrVarintBufferShort \<or> e = ErrVarintTooLong"
  by (auto simp: UnpackCode_def Let_def split: prod.splits if_splits)









lemma decodeKeypair_UnknownD:
  assumes "decodeKeypair buf = Inl ErrUnknownCode"
  shows "\<exists>c p q extra. buf = frame24 (field16 c @ field16 p @ field16 q @ extra)"
proof -
  from assms obtain vals input where r0: "ReadUint24LengthPrefixed buf = Some (vals, input)"
    and e: "Empty input"
    by (auto simp: decodeKeypair_def split: option.splits if_splits)
  from assms r0 e obtain c v1 where r1: "ReadUint16LengthPrefixed vals = Some (c, v1)"
    by (auto simp: decodeKeypair_def split: option.splits)
  from assms r0 e r1 obtain numCode where u: "UnpackCode c = Inr numCode"
    by (auto simp: decodeKeypair_def split: sum.splits dest: UnpackCode_errors)
  from assms r0 e r1 u obtain p v2 where r2: "ReadUint16LengthPrefixed v1 = Some (p, v2)"
    by (auto simp: decodeKeypair_def split: option.splits)
  from assms r0 e r1 u r2 obtain q v3 where r3: "ReadUint16LengthPrefixed v2 = Some (q, v3)"
    by (auto simp: decodeKeypair_def split: option.splits)
  have "buf = frame24 vals @ input" using r0 by (auto dest: ReadUint24_SomeD)
  moreover have "input = []" using e by (simp add: Empty_def)
  moreover have "vals = field16 c @ v1" using r1 by (auto dest: ReadUint16_SomeD)
  moreover have "v1 = field16 p @ v2" using r2 by (auto dest: ReadUint16_SomeD)
  moreover have "v2 = field16 q @ v3" using r3 by (auto dest: ReadUint16_SomeD)
  ultimately have "buf = frame24 (field16 c @ field16 p @ field16 q @ v3)" by simp
  then show ?thesis by blast
qed

lemma decodeKeypair_fewer:
  assumes "length c < 65536" and "length p < 65536"
  shows "decodeKeypair (frame24 []) = Inl ErrInvalidMultikeypair"
    and "decodeKeypair (frame24 (field16 c)) =
      (case UnpackCode c of Inl e \<Rightarrow> Inl e | Inr numCode \<Rightarrow> Inl ErrInvalidMultikeypair)"
    and "decodeKeypair (frame24 (field16 c @ field16 p)) =
      (case UnpackCode c of Inl e \<Rightarrow> Inl e | Inr numCode \<Rightarrow> Inl ErrInvalidMultikeypair)"
proof -
  show "decodeKeypair (frame24 []) = Inl ErrInvalidMultikeypair"
    by (simp add: decodeKeypair_def ReadUint24_frame24_exact Empty_def ReadUint16_short)
  have "decodeKeypair (frame24 (field16 c @ [])) =
      (case UnpackCode c of Inl e \<Rightarrow> Inl e | Inr numCode \<Rightarrow> Inl ErrInvalidMultikeypair)"
    using assms
    by (simp add: decodeKeypair_def ReadUint24_frame24_exact ReadUint16_field16 Empty_def
        ReadUint16_short del: append_Nil2 split: sum.splits)
  then show "decodeKeypair (frame24 (field16 c)) =
      (case UnpackCode c of Inl e \<Rightarrow> Inl e | Inr numCode \<Rightarrow> Inl ErrInvalidMultikeypair)"
    by simp
  have "decodeKeypair (frame24 (field16 c @ field16 p @ [])) =
      (case UnpackCode c of Inl e \<Rightarrow> Inl e | Inr numCode \<Rightarrow> Inl ErrInvalidMultikeypair)"
    using assms
    by (simp add: decodeKeypair_def ReadUint24_frame24_exact ReadUint16_field16 Empty_def
        ReadUint16_short del: append_Nil2 split: sum.splits)
  then show "decodeKeypair (frame24 (field16 c @ field16 p)) =
      (case UnpackCode c of Inl e \<Rightarrow> Inl e | Inr numCode \<Rightarrow> Inl ErrInvalidMultikeypair)"
    by simp
qed

lemma decodeKeypair_three_fields:
  assumes "length c < 65536" and "length p < 65536" and "length q < 65536"
  shows "decodeKeypair (frame24 (field16 c @ field16 p @ field16 q)) =
    (case UnpackCode c of
       Inl e \<Rightarrow> Inl e
     | Inr numCode \<Rightarrow>
         (case validCode numCode of
            Some e \<Rightarrow> Inl e
          | None \<Rightarrow> Inr \<lparr>Code = numCode, Name = Codes_index numCode, Public = q,
                 PublicLength = int (length q), Private = p,
                 PrivateLength = int (length p)\<rparr>))"
proof -
  have "length (field16 c @ field16 p @ field16 q @ []) < 16777216"
    using assms by simp
  from decodeKeypair_frame [OF assms this] show ?thesis by simp
qed

lemma validCode_not_invalid: "validCode code \<noteq> Some ErrInvalidMultikeypair"
  using validCode_cases [of code] by auto

lemma decodeKeypair_frame_not_invalid:
  assumes "length c < 65536" and "length p < 65536" and "length q < 65536"
    and "length (field16 c @ field16 p @ field16 q @ extra) < 16777216"
  shows "decodeKeypair (frame24 (field16 c @ field16 p @ field16 q @ extra)) \<noteq>
    Inl ErrInvalidMultikeypair"
  by (auto simp: decodeKeypair_frame [OF assms] validCode_not_invalid
      split: sum.splits option.splits dest: UnpackCode_errors)

lemma ReadUint16_field16_exact:
  "length v < 65536 \<Longrightarrow> ReadUint16LengthPrefixed (field16 v) = Some (v, [])"
  using ReadUint16_field16 [of v "[]"] by simp

lemma child_frame_fits:
  "length (child_frame k) \<le> 65535 \<Longrightarrow> child_fits k"
  by (simp add: child_fits_def child_frame_def keypair_payload_def)

lemma decodeKeypair_any_child_frame:
  assumes "child_fits k"
  shows "decodeKeypair (child_frame k) =
    (if validCode (Code k) = None then Inr (decoded_child k) else Inl ErrUnknownCode)"
proof -
  have l: "length (uvarint_bytes (Code k)) < 65536" "length (Private k) < 65536"
    "length (Public k) < 65536"
    using assms length_uvarint_bytes_le [of "Code k"] by (simp_all add: child_fits_def)
  have u: "UnpackCode (uvarint_bytes (Code k)) = Inr (Code k)"
    using UnpackCode_bytes [of "Code k" "[]"] by simp
  show ?thesis
    using validCode_cases [of "Code k"]
    by (auto simp: child_frame_def keypair_payload_def decodeKeypair_three_fields [OF l] u
        decoded_child_def)
qed

lemma decodeChildren_child_frames:
  "\<forall>k \<in> set ks. child_fits k \<Longrightarrow> childLen = i + int (length ks) \<Longrightarrow>
   decodeChildren i childLen (concat (map (\<lambda>k. field16 (child_frame k)) ks) @ rest) acc =
     (if list_all (\<lambda>k. validCode (Code k) = None) ks
      then Inr (acc @ map decoded_child ks, rest) else Inl ErrUnknownCode)"
proof (induction ks arbitrary: i acc)
  case Nil
  then show ?case by (subst decodeChildren.simps) simp
next
  case (Cons k ks)
  from Cons.prems have f: "child_fits k" and r: "\<forall>k \<in> set ks. child_fits k" by simp_all
  have l: "length (child_frame k) < 65536" using f by (simp add: child_fits_def)
  have ih: "decodeChildren (i + 1) childLen
      (concat (map (\<lambda>k. field16 (child_frame k)) ks) @ rest) (acc @ [decoded_child k]) =
     (if list_all (\<lambda>k. validCode (Code k) = None) ks
      then Inr ((acc @ [decoded_child k]) @ map decoded_child ks, rest)
      else Inl ErrUnknownCode)"
    using r Cons.prems(2) by (intro Cons.IH) simp_all
  show ?case
    using Cons.prems(2) ih
    by (subst decodeChildren.simps)
      (simp add: ReadUint16_field16 l decodeKeypair_any_child_frame [OF f])
qed

lemma decodeRecursivekey_child_frames:
  assumes "length c < 65536" and "length m < 65536" and "length n < 65536"
    and "\<forall>k \<in> set ks. child_fits k"
    and "UnpackCode c = Inr code"
    and "UnpackLen n = Inr (int (length ks))"
    and "length (field16 c @ field16 m @ field16 n @
        concat (map (\<lambda>k. field16 (child_frame k)) ks)) < 16777216"
  shows "decodeRecursivekey (frame24 (field16 c @ field16 m @ field16 n @
        concat (map (\<lambda>k. field16 (child_frame k)) ks))) =
    (if list_all (\<lambda>k. validCode (Code k) = None) ks \<and> validCode code = None
     then Inr \<lparr>RCode = code, RName = Codes_index code, Master = m,
       MasterLength = int (length m), ChildrenNum = int (length ks),
       Children = map decoded_child ks\<rparr>
     else Inl ErrUnknownCode)"
proof -
  have d: "decodeChildren 0 (int (length ks))
      (concat (map (\<lambda>k. field16 (child_frame k)) ks) @ []) [] =
     (if list_all (\<lambda>k. validCode (Code k) = None) ks
      then Inr ([] @ map decoded_child ks, []) else Inl ErrUnknownCode)"
    using assms(4) by (rule decodeChildren_child_frames) simp
  have r3: "ReadUint16LengthPrefixed
      (field16 n @ concat (map (\<lambda>k. field16 (child_frame k)) ks)) =
      Some (n, concat (map (\<lambda>k. field16 (child_frame k)) ks))"
    using assms(3) by (rule ReadUint16_field16)
  show ?thesis
    using assms(1,2,5,6,7) d validCode_cases [of code]
    by (auto simp: decodeRecursivekey_def ReadUint24_frame24_exact ReadUint16_field16 r3
        Empty_def Let_def simp del: length_append)
qed

section \<open>Registry facts\<close>

lemma validRecursiveCode_unknown: "validRecursiveCode code = Some ErrUnknownCode"
  by (simp add: validRecursiveCode_def RecursiveCodes_def)

section \<open>Claims\<close>

subsection \<open>C1\<close>

text \<open>
  C1. Round trip of the flat codec: for every registered code and all private and
  public keys of at most 65535 bytes each, \<open>Encode\<close> returns a frame, and \<open>Decode\<close>
  of that frame succeeds with the Keypair whose \<open>Code\<close> is the code, whose \<open>Name\<close>
  is the registry entry of the code, whose \<open>Private\<close> and \<open>Public\<close> are the input
  bytes and whose length fields are the lengths of those bytes.
\<close>

theorem C1_roundtrip:
  assumes "validCode code = None" and "length private \<le> 65535" and "length public \<le> 65535"
  shows "\<exists>m. Encode private public code = Return (Inr m) \<and>
    Decode m = Inr \<lparr>Code = code, Name = Codes_index code, Public = public,
         PublicLength = int (length public), Private = private,
         PrivateLength = int (length private)\<rparr>"
proof -
  have p: "length private < 65536" and q: "length public < 65536"
    using assms by simp_all
  show ?thesis
    using Encode_fits [OF assms(1) p q] decodeKeypair_payload [OF assms(1) p q]
    by (simp add: Decode_def)
qed

theorem C1_roundtrip_witness:
  "validCode 0x11 = None \<and> length [0x61, 0x62 :: byte] \<le> 65535 \<and>
   length [0x63, 0x64 :: byte] \<le> 65535 \<and>
   (\<exists>m. Encode [0x61, 0x62] [0x63, 0x64] 0x11 = Return (Inr m) \<and>
     Decode m = Inr \<lparr>Code = 0x11, Name = ''ed25519'', Public = [0x63, 0x64],
         PublicLength = 2, Private = [0x61, 0x62], PrivateLength = 2\<rparr>)"
proof -
  have v: "validCode 0x11 = None"
    by (simp add: validCode_def Codes_def IDENTITY_def ED_25519_def)
  have n: "Codes_index 0x11 = ''ed25519''"
    by (simp add: Codes_index_def Codes_def IDENTITY_def ED_25519_def)
  show ?thesis
    using C1_roundtrip [of "0x11" "[0x61, 0x62]" "[0x63, 0x64]"] v n by simp
qed

subsection \<open>C2\<close>

text \<open>
  C2, as stated, fails on the code: \<open>RecursiveEncode\<close> checks the code against
  the empty registry \<open>RecursiveCodes\<close>, so even for a code of the flat registry
  (here \<open>0x11\<close>) it returns \<open>ErrUnknownCode\<close> and the empty
  \<open>Multirecursivekey\<close>, which \<open>RecursiveDecode\<close> rejects.
\<close>

theorem C2_counterexample:
  "validCode 0x11 = None \<and>
   RecursiveEncode [0x6d] [] 0x11 = Return (Inl ErrUnknownCode) \<and>
   RecursiveDecode [] = Inl ErrInvalidMultikeypair"
  by (simp add: validCode_def Codes_def IDENTITY_def ED_25519_def RecursiveEncode_def
      validRecursiveCode_unknown RecursiveDecode_eq decodeRecursivekey_def ReadUint24_short)

text \<open>
  C2, amended. The frame that \<open>encodeRecursivekey\<close> builds (the function
  \<open>RecursiveEncode\<close> calls once its registry check has passed) round-trips: for
  every code of the flat registry, every master key of at most 65535 bytes and every
  list of valid Keypairs whose encoded frames are at most 65535 bytes each, with the
  whole frame within 16,777,215 bytes, \<open>encodeRecursivekey\<close> returns a frame and
  \<open>RecursiveDecode\<close> of it reproduces the code, its name, the master key,
  \<open>ChildrenNum\<close> equal to the number of children, and the children in the same
  order with every field intact.
\<close>

theorem C2_recursive_roundtrip:
  assumes "validCode code = None"
    and "length master \<le> 65535"
    and "\<forall>k \<in> set children. valid_Keypair k \<and> length (child_frame k) \<le> 65535"
    and "length (recursive_payload master children code) \<le> 16777215"
  shows "\<exists>m. encodeRecursivekey master children code = Return m \<and>
    RecursiveDecode m = Inr \<lparr>RCode = code, RName = Codes_index code, Master = master,
         MasterLength = int (length master), ChildrenNum = int (length children),
         Children = children\<rparr>"
proof -
  have m: "length master < 65536" using assms(2) by simp
  have v: "\<forall>k \<in> set children. valid_Keypair k \<and> length (child_frame k) < 65536"
    using assms(3) by auto
  then have f: "\<forall>k \<in> set children. child_fits k"
    by (auto simp: child_fits_def valid_Keypair_def)
  have t: "length (recursive_payload master children code) < 16777216"
    using assms(4) by simp
  show ?thesis
    using encodeRecursivekey_fits [OF m f t] decodeRecursivekey_payload [OF assms(1) m v t]
    by (simp add: RecursiveDecode_eq)
qed

theorem C2_recursive_roundtrip_witness:
  "\<exists>m. encodeRecursivekey [0x6d]
      [\<lparr>Code = 0x11, Name = ''ed25519'', Public = [0x63, 0x64], PublicLength = 2,
        Private = [0x61, 0x62], PrivateLength = 2\<rparr>,
       \<lparr>Code = 0x12, Name = ''bip32'', Public = [0x65], PublicLength = 1,
        Private = [], PrivateLength = 0\<rparr>] 0x11 = Return m \<and>
    RecursiveDecode m = Inr \<lparr>RCode = 0x11, RName = ''ed25519'', Master = [0x6d],
      MasterLength = 1, ChildrenNum = 2, Children =
      [\<lparr>Code = 0x11, Name = ''ed25519'', Public = [0x63, 0x64], PublicLength = 2,
        Private = [0x61, 0x62], PrivateLength = 2\<rparr>,
       \<lparr>Code = 0x12, Name = ''bip32'', Public = [0x65], PublicLength = 1,
        Private = [], PrivateLength = 0\<rparr>]\<rparr>"
proof -
  let ?k1 = "\<lparr>Code = 0x11, Name = ''ed25519'', Public = [0x63, 0x64 :: byte], PublicLength = 2,
        Private = [0x61, 0x62 :: byte], PrivateLength = 2\<rparr>"
  let ?k2 = "\<lparr>Code = 0x12, Name = ''bip32'', Public = [0x65 :: byte], PublicLength = 1,
        Private = [] :: byte list, PrivateLength = 0\<rparr>"
  have v: "validCode 0x11 = None" "validCode 0x12 = None"
    by (simp_all add: validCode_def Codes_def IDENTITY_def ED_25519_def BIP_32_def)
  have n: "Codes_index 0x11 = ''ed25519''" "Codes_index 0x12 = ''bip32''"
    by (simp_all add: Codes_index_def Codes_def IDENTITY_def ED_25519_def BIP_32_def)
  have s: "length (uvarint_bytes 0x11) = 1" "length (uvarint_bytes 0x12) = 1"
    "length (uvarint_bytes 2) = 1"
    by (simp_all add: uvarint_bytes_length_small)
  have k: "\<forall>k \<in> set [?k1, ?k2]. valid_Keypair k \<and> length (child_frame k) \<le> 65535"
    by (simp add: valid_Keypair_def child_frame_def keypair_payload_def v n s)
  have t: "length (recursive_payload [0x6d] [?k1, ?k2] 0x11) \<le> 16777215"
    by (simp add: recursive_payload_def child_frame_def keypair_payload_def s)
  show ?thesis
    using C2_recursive_roundtrip [OF v(1) _ k t] by (simp add: n)
qed

subsection \<open>C3\<close>

text \<open>
  C3. The recursive registry \<open>RecursiveCodes\<close> is empty, so \<open>validRecursiveCode\<close>
  returns \<open>ErrUnknownCode\<close> for every code, and \<open>RecursiveEncode\<close> returns
  \<open>ErrUnknownCode\<close> for every master key, list of children and code.
\<close>

theorem C3_recursive_encode_always_unknown:
  "validRecursiveCode code = Some ErrUnknownCode \<and>
   RecursiveEncode master children code = Return (Inl ErrUnknownCode)"
  by (simp add: RecursiveEncode_def validRecursiveCode_def RecursiveCodes_def)

subsection \<open>C4\<close>

text \<open>
  C4, as stated, fails on the code: with a private key of 65536 bytes the builder
  records an error for the 16-bit field, \<open>Bytes\<close> returns it, and \<open>encodeKeypair\<close>
  panics with it; \<open>Encode\<close> does not return an error.
\<close>

theorem C4_counterexample: "Encode (replicate 65536 0) [] IDENTITY = Panic"
  by (simp add: Encode_def validCode_IDENTITY encodeKeypair_panics)

text \<open>
  C4, amended. An encode whose private or public key exceeds 65535 bytes does not
  return: \<open>encodeKeypair\<close>, and \<open>Encode\<close> for a registered code, panic with the
  builder's error. Likewise \<open>encodeRecursivekey\<close> panics when the master key, a
  child's key or a child's encoded frame exceeds 65535 bytes, or when the contents
  of the outer frame exceed 16,777,215 bytes. No truncated frame is returned.
\<close>

theorem C4_oversize_panics:
  "(validCode code = None \<and> (65535 < length private \<or> 65535 < length public) \<longrightarrow>
      encodeKeypair private public code = Panic \<and> Encode private public code = Panic) \<and>
   (65535 < length master \<or>
    (\<exists>k \<in> set children. 65535 < length (Private k) \<or> 65535 < length (Public k) \<or>
        65535 < length (child_frame k)) \<or>
    16777215 < length (recursive_payload master children code') \<longrightarrow>
      encodeRecursivekey master children code' = Panic)"
proof -
  have flat: "validCode code = None \<and> (65535 < length private \<or> 65535 < length public) \<longrightarrow>
      encodeKeypair private public code = Panic \<and> Encode private public code = Panic"
  proof
    assume a: "validCode code = None \<and> (65535 < length private \<or> 65535 < length public)"
    then have "\<not> (length private < 65536 \<and> length public < 65536)" by auto
    then show "encodeKeypair private public code = Panic \<and> Encode private public code = Panic"
      using a by (simp add: Encode_def encodeKeypair_panics)
  qed
  have nested: "65535 < length master \<or>
    (\<exists>k \<in> set children. 65535 < length (Private k) \<or> 65535 < length (Public k) \<or>
        65535 < length (child_frame k)) \<or>
    16777215 < length (recursive_payload master children code') \<longrightarrow>
      encodeRecursivekey master children code' = Panic"
  proof
    assume "65535 < length master \<or>
      (\<exists>k \<in> set children. 65535 < length (Private k) \<or> 65535 < length (Public k) \<or>
          65535 < length (child_frame k)) \<or>
      16777215 < length (recursive_payload master children code')"
    moreover have "\<And>k. 65535 < length (Private k) \<or> 65535 < length (Public k) \<or>
        65535 < length (child_frame k) \<Longrightarrow> \<not> child_fits k"
      by (auto simp: child_fits_def)
    ultimately have "\<not> length master < 65536 \<or> (\<exists>k \<in> set children. \<not> child_fits k) \<or>
      \<not> length (recursive_payload master children code') < 16777216"
      by fastforce
    then have "\<not> (length master < 65536 \<and> (\<forall>k \<in> set children. child_fits k) \<and>
      length (recursive_payload master children code') < 16777216)"
      by blast
    then show "encodeRecursivekey master children code' = Panic"
      by (rule encodeRecursivekey_panics)
  qed
  show ?thesis using flat nested by (rule conjI)
qed

theorem C4_oversize_panics_witness:
  "validCode RSA = None \<and> 65535 < length (replicate 65536 (0 :: byte)) \<and>
   encodeKeypair [] (replicate 65536 0) RSA = Panic \<and>
   Encode [] (replicate 65536 0) RSA = Panic \<and>
   encodeRecursivekey (replicate 65536 0) [] RSA = Panic"
proof -
  have v: "validCode RSA = None" by (simp add: validCode_iff)
  show ?thesis
    using C4_oversize_panics [of RSA "[]" "replicate 65536 0" "replicate 65536 0" "[]" RSA] v
    by simp
qed

subsection \<open>C5\<close>




subsection \<open>C6\<close>

text \<open>
  C6, as stated, fails on the code: a well-formed outer frame with four fields
  decodes successfully. \<open>decodeKeypair\<close> checks that nothing follows the outer frame
  (\<open>input.Empty()\<close>) but never checks that nothing follows the third field.
\<close>

theorem C6_counterexample:
  "[0, 0, 11, 0, 1, 0x11, 0, 1, 7, 0, 1, 8, 0, 0] =
     frame24 (field16 [0x11] @ field16 [7] @ field16 [8] @ field16 []) \<and>
   Decode [0, 0, 11, 0, 1, 0x11, 0, 1, 7, 0, 1, 8, 0, 0] =
     Inr \<lparr>Code = 0x11, Name = ''ed25519'', Public = [8], PublicLength = 1,
       Private = [7], PrivateLength = 1\<rparr>"
proof -
  have v: "validCode 0x11 = None"
    by (simp add: validCode_def Codes_def IDENTITY_def ED_25519_def)
  have nm: "Codes_index 0x11 = ''ed25519''"
    by (simp add: Codes_index_def Codes_def IDENTITY_def ED_25519_def)
  have u: "UnpackCode [0x11] = Inr 0x11" by (simp add: UnpackCode_def Uvarint_def)
  have f: "[0, 0, 11, 0, 1, 0x11, 0, 1, 7, 0, 1, 8, 0, 0] =
     frame24 (field16 [0x11] @ field16 [7] @ field16 [8] @ field16 [])"
    by (simp add: frame24_def field16_def be_bytes_2 be_bytes_3)
  have "decodeKeypair (frame24 (field16 [0x11] @ field16 [7] @ field16 [8] @ field16 [])) =
     Inr \<lparr>Code = 0x11, Name = ''ed25519'', Public = [8], PublicLength = 1,
       Private = [7], PrivateLength = 1\<rparr>"
    by (subst decodeKeypair_frame) (simp_all add: u v nm)
  then show ?thesis
    by (simp only: f [symmetric] Decode_eq)
qed

text \<open>
  C6, amended. \<open>Decode\<close> requires at least three fields and ignores whatever
  follows the third inside the outer frame: for a well-formed frame with three
  fields and anything after them (further fields included), \<open>Decode\<close> returns what
  it returns for the frame of the first three fields alone and never
  \<open>ErrInvalidMultikeypair\<close>; with two, one or no field it fails, with
  \<open>ErrInvalidMultikeypair\<close> (or first with the varint error of the code field).
\<close>

theorem C6_extra_fields_ignored:
  assumes "length c \<le> 65535" and "length p \<le> 65535" and "length q \<le> 65535"
    and "length (field16 c @ field16 p @ field16 q @ extra) \<le> 16777215"
  shows "Decode (frame24 (field16 c @ field16 p @ field16 q @ extra)) =
      Decode (frame24 (field16 c @ field16 p @ field16 q)) \<and>
    Decode (frame24 (field16 c @ field16 p @ field16 q @ extra)) \<noteq>
      Inl ErrInvalidMultikeypair \<and>
    Decode (frame24 (field16 c @ field16 p)) =
      (case UnpackCode c of Inl e \<Rightarrow> Inl e | Inr numCode \<Rightarrow> Inl ErrInvalidMultikeypair) \<and>
    Decode (frame24 (field16 c)) =
      (case UnpackCode c of Inl e \<Rightarrow> Inl e | Inr numCode \<Rightarrow> Inl ErrInvalidMultikeypair) \<and>
    Decode (frame24 []) = Inl ErrInvalidMultikeypair"
proof -
  have l: "length c < 65536" "length p < 65536" "length q < 65536"
    using assms(1,2,3) by simp_all
  have t: "length (field16 c @ field16 p @ field16 q @ extra) < 16777216"
    using assms(4) by simp
  have "decodeKeypair (frame24 (field16 c @ field16 p @ field16 q @ extra)) =
      decodeKeypair (frame24 (field16 c @ field16 p @ field16 q))"
    by (simp only: decodeKeypair_frame [OF l t] decodeKeypair_three_fields [OF l])
  then show ?thesis
    unfolding Decode_eq
    using decodeKeypair_frame_not_invalid [OF l t] decodeKeypair_fewer [OF l(1,2)]
    by (intro conjI) assumption+
qed

theorem C6_extra_fields_ignored_witness:
  "Decode (frame24 (field16 [0x11] @ field16 [7] @ field16 [8] @ field16 [9, 9])) =
     Decode (frame24 (field16 [0x11] @ field16 [7] @ field16 [8])) \<and>
   Decode (frame24 (field16 [0x11] @ field16 [7] @ field16 [8] @ field16 [9, 9])) \<noteq>
     Inl ErrInvalidMultikeypair \<and>
   Decode (frame24 (field16 [0x11] @ field16 [7])) = Inl ErrInvalidMultikeypair \<and>
   Decode (frame24 (field16 [0x11])) = Inl ErrInvalidMultikeypair \<and>
   Decode (frame24 []) = Inl ErrInvalidMultikeypair"
proof -
  have u: "UnpackCode [0x11] = Inr 0x11" by (simp add: UnpackCode_def Uvarint_def)
  have "Decode (frame24 (field16 [0x11] @ field16 [7] @ field16 [8] @ field16 [9, 9])) =
      Decode (frame24 (field16 [0x11] @ field16 [7] @ field16 [8])) \<and>
    Decode (frame24 (field16 [0x11] @ field16 [7] @ field16 [8] @ field16 [9, 9])) \<noteq>
      Inl ErrInvalidMultikeypair \<and>
    Decode (frame24 (field16 [0x11] @ field16 [7])) =
      (case UnpackCode [0x11] of Inl e \<Rightarrow> Inl e
       | Inr numCode \<Rightarrow> Inl ErrInvalidMultikeypair) \<and>
    Decode (frame24 (field16 [0x11])) =
      (case UnpackCode [0x11] of Inl e \<Rightarrow> Inl e
       | Inr numCode \<Rightarrow> Inl ErrInvalidMultikeypair) \<and>
    Decode (frame24 []) = Inl ErrInvalidMultikeypair"
    by (rule C6_extra_fields_ignored) simp_all
  then show ?thesis unfolding u sum.case .
qed

subsection \<open>C7\<close>

text \<open>
  C7. A well-formed three-field frame whose code field unpacks to a code outside the
  flat registry is rejected with \<open>ErrUnknownCode\<close>, which is not
  \<open>ErrInvalidMultikeypair\<close>. The registry check comes after the structural parse
  of all three fields: with the same unknown code but the public field or both key
  fields missing the result is \<open>ErrInvalidMultikeypair\<close>, and whenever \<open>Decode\<close>
  returns \<open>ErrUnknownCode\<close> the buffer is a frame that starts with three
  well-formed fields.
\<close>

theorem C7_unknown_code:
  assumes "length c \<le> 65535" and "length p \<le> 65535" and "length q \<le> 65535"
    and "UnpackCode c = Inr code" and "validCode code \<noteq> None"
  shows "Decode (frame24 (field16 c @ field16 p @ field16 q)) = Inl ErrUnknownCode \<and>
    ErrUnknownCode \<noteq> ErrInvalidMultikeypair \<and>
    Decode (frame24 (field16 c @ field16 p)) = Inl ErrInvalidMultikeypair \<and>
    Decode (frame24 (field16 c)) = Inl ErrInvalidMultikeypair \<and>
    (Decode buf = Inl ErrUnknownCode \<longrightarrow>
      (\<exists>c' p' q' extra. buf = frame24 (field16 c' @ field16 p' @ field16 q' @ extra)))"
proof -
  have l: "length c < 65536" "length p < 65536" "length q < 65536"
    using assms(1,2,3) by simp_all
  have v: "validCode code = Some ErrUnknownCode"
    using assms(5) validCode_cases [of code] by auto
  have a: "Decode (frame24 (field16 c @ field16 p @ field16 q)) = Inl ErrUnknownCode"
    by (simp add: Decode_eq decodeKeypair_three_fields [OF l] assms(4) v)
  have b: "Decode (frame24 (field16 c @ field16 p)) = Inl ErrInvalidMultikeypair"
    "Decode (frame24 (field16 c)) = Inl ErrInvalidMultikeypair"
    by (simp_all add: Decode_eq decodeKeypair_fewer [OF l(1,2)] assms(4))
  have d: "Decode buf = Inl ErrUnknownCode \<longrightarrow>
      (\<exists>c' p' q' extra. buf = frame24 (field16 c' @ field16 p' @ field16 q' @ extra))"
    unfolding Decode_eq by (rule impI) (rule decodeKeypair_UnknownD)
  show ?thesis using a b d by simp
qed

theorem C7_unknown_code_witness:
  "validCode 0x15 \<noteq> None \<and>
   Decode (frame24 (field16 [0x15] @ field16 [7] @ field16 [8])) = Inl ErrUnknownCode \<and>
   Decode (frame24 (field16 [0x15] @ field16 [7])) = Inl ErrInvalidMultikeypair \<and>
   Decode (frame24 (field16 [0x15])) = Inl ErrInvalidMultikeypair \<and>
   (\<exists>c' p' q' extra. frame24 (field16 [0x15] @ field16 [7] @ field16 [8]) =
      frame24 (field16 c' @ field16 p' @ field16 q' @ extra))"
proof -
  have u: "UnpackCode [0x15] = Inr 0x15" by (simp add: UnpackCode_def Uvarint_def)
  have v: "validCode 0x15 \<noteq> None"
    by (simp add: validCode_def Codes_def IDENTITY_def ED_25519_def BIP_32_def DSA_def RSA_def)
  show ?thesis
    using C7_unknown_code [OF _ _ _ u v, of "[7]" "[8]"
        "frame24 (field16 [0x15] @ field16 [7] @ field16 [8])"] v
    by simp
qed

subsection \<open>C8\<close>

text \<open>
  C8, as stated, fails on the code: a buffer of exactly ten bytes that all carry the
  continuation bit never clears the bit within the ten bytes a 64-bit value needs, yet
  \<open>binary.Uvarint\<close> reports it as a buffer that is too small (\<open>n = 0\<close>), so
  \<open>UnpackCode\<close> returns \<open>ErrVarintBufferShort\<close>, not \<open>ErrVarintTooLong\<close>.
\<close>

theorem C8_counterexample:
  "UnpackCode [0x80, 0x80, 0x80, 0x80, 0x80, 0x80, 0x80, 0x80, 0x80, 0x80] =
     Inl ErrVarintBufferShort \<and> ErrVarintBufferShort \<noteq> ErrVarintTooLong"
  by (simp add: UnpackCode_def Uvarint_def)

text \<open>
  C8, amended. \<open>UnpackCode\<close> of the empty buffer fails with \<open>ErrVarintBufferShort\<close>;
  of a buffer of more than ten bytes whose first ten bytes all carry the
  continuation bit it fails with \<open>ErrVarintTooLong\<close>; of a buffer of at most ten
  bytes that all carry the continuation bit it fails with \<open>ErrVarintBufferShort\<close>;
  and \<open>PackCode 0\<close> is the single byte zero.
\<close>

theorem C8_varint_boundaries:
  "UnpackCode [] = Inl ErrVarintBufferShort \<and>
   (10 < length buf \<and> (\<forall>b \<in> set (take 10 buf). 0x80 \<le> b) \<longrightarrow>
      UnpackCode buf = Inl ErrVarintTooLong) \<and>
   (length buf' \<le> 10 \<and> (\<forall>b \<in> set buf'. 0x80 \<le> b) \<longrightarrow>
      UnpackCode buf' = Inl ErrVarintBufferShort) \<and>
   PackCode 0 = Return [0]"
proof (intro conjI impI)
  show "UnpackCode [] = Inl ErrVarintBufferShort"
    by (simp add: UnpackCode_def Uvarint_def)
next
  assume "10 < length buf \<and> (\<forall>b \<in> set (take 10 buf). 0x80 \<le> b)"
  then have "Uvarint_loop buf 0 0 0 = (0, - 11)"
    by (intro Uvarint_loop_overflow) simp_all
  then show "UnpackCode buf = Inl ErrVarintTooLong"
    by (simp add: UnpackCode_def Uvarint_def)
next
  assume "length buf' \<le> 10 \<and> (\<forall>b \<in> set buf'. 0x80 \<le> b)"
  then have "Uvarint_loop buf' 0 0 0 = (0, 0)"
    by (intro Uvarint_loop_short) simp_all
  then show "UnpackCode buf' = Inl ErrVarintBufferShort"
    by (simp add: UnpackCode_def Uvarint_def)
next
  have "(0 :: uint64) < 0x80" by simp
  then have "uvarint_bytes 0 = [ucast (0 :: uint64)]" by (rule uvarint_bytes_small)
  then show "PackCode 0 = Return [0]" by (simp add: PackCode_bytes)
qed

theorem C8_varint_boundaries_witness:
  "10 < length (replicate 11 (0xff :: byte)) \<and>
   UnpackCode (replicate 11 0xff) = Inl ErrVarintTooLong \<and>
   length (replicate 10 (0xff :: byte)) \<le> 10 \<and>
   UnpackCode (replicate 10 0xff) = Inl ErrVarintBufferShort"
  using C8_varint_boundaries [of "replicate 11 0xff" "replicate 10 0xff"] by simp

subsection \<open>C9\<close>

text \<open>
  C9, as stated, fails on the code: the frame below is structurally well formed and
  its code \<open>0x11\<close> is in the flat registry, but its one child carries the
  unregistered code \<open>0x15\<close>. \<open>decodeRecursivekey\<close> decodes every child with
  \<open>decodeKeypair\<close>, which validates the child's code against the flat registry
  too, so \<open>RecursiveDecode\<close> returns \<open>ErrUnknownCode\<close>.
\<close>

theorem C9_counterexample:
  "validCode 0x11 = None \<and>
   [0, 0, 23, 0, 1, 0x11, 0, 1, 0x6d, 0, 1, 1, 0, 12,
     0, 0, 9, 0, 1, 0x15, 0, 1, 7, 0, 1, 8] =
     frame24 (field16 [0x11] @ field16 [0x6d] @ field16 [1] @
       field16 (frame24 (field16 [0x15] @ field16 [7] @ field16 [8]))) \<and>
   RecursiveDecode [0, 0, 23, 0, 1, 0x11, 0, 1, 0x6d, 0, 1, 1, 0, 12,
     0, 0, 9, 0, 1, 0x15, 0, 1, 7, 0, 1, 8] = Inl ErrUnknownCode"
proof -
  let ?k = "\<lparr>Code = 0x15, Name = [], Public = [8 :: byte], PublicLength = 0,
    Private = [7 :: byte], PrivateLength = 0\<rparr>"
  have v: "validCode 0x11 = None" "validCode 0x15 \<noteq> None"
    by (simp_all add: validCode_def Codes_def IDENTITY_def ED_25519_def BIP_32_def DSA_def
        RSA_def)
  have u: "UnpackCode [0x11] = Inr 0x11" by (simp add: UnpackCode_def Uvarint_def)
  have ul: "UnpackLen [1] = Inr (int (length [?k]))" by (simp add: UnpackLen_def Uvarint_def)
  have s: "uvarint_bytes 0x15 = [0x15]" by (simp add: uvarint_bytes_small)
  have cf: "child_frame ?k = frame24 (field16 [0x15] @ field16 [7] @ field16 [8])"
    by (simp add: child_frame_def keypair_payload_def s)
  have fits: "\<forall>k \<in> set [?k]. child_fits k"
    by (simp add: child_fits_def cf)
  have b: "[0, 0, 23, 0, 1, 0x11, 0, 1, 0x6d, 0, 1, 1, 0, 12,
     0, 0, 9, 0, 1, 0x15, 0, 1, 7, 0, 1, 8] =
     frame24 (field16 [0x11] @ field16 [0x6d] @ field16 [1] @
       field16 (frame24 (field16 [0x15] @ field16 [7] @ field16 [8])))"
    by (simp add: frame24_def field16_def be_bytes_2 be_bytes_3)
  have "decodeRecursivekey (frame24 (field16 [0x11] @ field16 [0x6d] @ field16 [1] @
      concat (map (\<lambda>k. field16 (child_frame k)) [?k]))) = Inl ErrUnknownCode"
    by (subst decodeRecursivekey_child_frames [OF _ _ _ fits u ul]) (simp_all add: cf v)
  then have "decodeRecursivekey (frame24 (field16 [0x11] @ field16 [0x6d] @ field16 [1] @
       field16 (frame24 (field16 [0x15] @ field16 [7] @ field16 [8])))) = Inl ErrUnknownCode"
    by (simp add: cf)
  then show ?thesis
    using v(1) by (simp only: b [symmetric] RecursiveDecode_eq)
qed

text \<open>
  C9, amended. \<open>RecursiveDecode\<close> validates the decoded code, and through
  \<open>decodeKeypair\<close> the code of every child, against the flat registry \<open>Codes\<close>
  (\<open>validCode\<close>), not against \<open>RecursiveCodes\<close>. For every structurally
  well-formed Multirecursivekey frame (a code field that unpacks to \<open>code\<close>, a
  master field, a count field that unpacks to the number of children, and one field
  per child holding that child's Multikeypair frame), \<open>RecursiveDecode\<close> succeeds
  exactly when \<open>code\<close> and every child's code are in the flat registry, and returns
  \<open>ErrUnknownCode\<close> otherwise; \<open>validRecursiveCode\<close> rejects every code and
  \<open>RecursiveEncode\<close> returns \<open>ErrUnknownCode\<close>, so decode accepts codes that
  encode rejects.
\<close>

theorem C9_decode_validates_flat_registry:
  assumes "length c \<le> 65535" and "length m \<le> 65535" and "length n \<le> 65535"
    and "list_all (\<lambda>k. length (child_frame k) \<le> 65535) ks"
    and "UnpackCode c = Inr code"
    and "UnpackLen n = Inr (int (length ks))"
    and "length (field16 c @ field16 m @ field16 n @
        concat (map (\<lambda>k. field16 (child_frame k)) ks)) \<le> 16777215"
  shows "RecursiveDecode (frame24 (field16 c @ field16 m @ field16 n @
        concat (map (\<lambda>k. field16 (child_frame k)) ks))) =
      (if list_all (\<lambda>k. validCode (Code k) = None) ks \<and> validCode code = None
       then Inr \<lparr>RCode = code, RName = Codes_index code, Master = m,
         MasterLength = int (length m), ChildrenNum = int (length ks),
         Children = map decoded_child ks\<rparr>
       else Inl ErrUnknownCode) \<and>
    validRecursiveCode code = Some ErrUnknownCode \<and>
    RecursiveEncode master children code = Return (Inl ErrUnknownCode)"
proof -
  have l: "length c < 65536" "length m < 65536" "length n < 65536"
    using assms(1,2,3) by simp_all
  have f: "\<forall>k \<in> set ks. child_fits k"
    using assms(4) by (auto simp: list_all_iff intro: child_frame_fits)
  have t: "length (field16 c @ field16 m @ field16 n @
        concat (map (\<lambda>k. field16 (child_frame k)) ks)) < 16777216"
    using assms(7) by simp
  show ?thesis
    unfolding RecursiveDecode_eq decodeRecursivekey_child_frames [OF l f assms(5,6) t]
    by (simp add: RecursiveEncode_def validRecursiveCode_unknown)
qed

theorem C9_decode_validates_flat_registry_witness:
  "RecursiveDecode (frame24 (field16 [0x11] @ field16 [0x6d] @ field16 [1] @
      concat (map (\<lambda>k. field16 (child_frame k))
        [\<lparr>Code = 0x12, Name = [], Public = [8], PublicLength = 0,
          Private = [7], PrivateLength = 0\<rparr>]))) =
     Inr \<lparr>RCode = 0x11, RName = ''ed25519'', Master = [0x6d], MasterLength = 1,
       ChildrenNum = 1, Children = [\<lparr>Code = 0x12, Name = ''bip32'', Public = [8],
         PublicLength = 1, Private = [7], PrivateLength = 1\<rparr>]\<rparr> \<and>
   validRecursiveCode 0x11 = Some ErrUnknownCode \<and>
   RecursiveEncode [0x6d] [] 0x11 = Return (Inl ErrUnknownCode) \<and>
   RecursiveDecode (frame24 (field16 [0x15] @ field16 [0x6d] @ field16 [1] @
      concat (map (\<lambda>k. field16 (child_frame k))
        [\<lparr>Code = 0x12, Name = [], Public = [8], PublicLength = 0,
          Private = [7], PrivateLength = 0\<rparr>]))) = Inl ErrUnknownCode"
proof -
  let ?k = "\<lparr>Code = 0x12, Name = [], Public = [8 :: byte], PublicLength = 0,
    Private = [7 :: byte], PrivateLength = 0\<rparr>"
  have v: "validCode 0x11 = None" "validCode 0x12 = None" "validCode 0x15 \<noteq> None"
    by (simp_all add: validCode_def Codes_def IDENTITY_def ED_25519_def BIP_32_def DSA_def
        RSA_def)
  have nm: "Codes_index 0x11 = ''ed25519''" "Codes_index 0x12 = ''bip32''"
    by (simp_all add: Codes_index_def Codes_def IDENTITY_def ED_25519_def BIP_32_def)
  have u: "UnpackCode [0x11] = Inr 0x11" "UnpackCode [0x15] = Inr 0x15"
    by (simp_all add: UnpackCode_def Uvarint_def)
  have ul: "UnpackLen [1] = Inr (int (length [?k]))" by (simp add: UnpackLen_def Uvarint_def)
  have s: "length (uvarint_bytes 0x12) = 1" by (simp add: uvarint_bytes_length_small)
  have fl: "list_all (\<lambda>k. length (child_frame k) \<le> 65535) [?k]"
    by (simp add: child_frame_def keypair_payload_def s)
  have t: "length (field16 [0x11] @ field16 [0x6d] @ field16 [1] @
        concat (map (\<lambda>k. field16 (child_frame k)) [?k])) \<le> 16777215"
    "length (field16 [0x15] @ field16 [0x6d] @ field16 [1] @
        concat (map (\<lambda>k. field16 (child_frame k)) [?k])) \<le> 16777215"
    by (simp_all add: child_frame_def keypair_payload_def s)
  show ?thesis
    using C9_decode_validates_flat_registry [OF _ _ _ fl u(1) ul t(1), of "[0x6d]" "[]"]
      C9_decode_validates_flat_registry [OF _ _ _ fl u(2) ul t(2), of "[0x6d]" "[]"]
    by (simp add: v nm decoded_child_def)
qed

subsection \<open>C10\<close>

text \<open>
  C10. For every name that is not a key of \<open>Names\<close>, the map lookup of
  \<open>EncodeName\<close> yields code 0, the registered \<open>IDENTITY\<close> code, so the call is
  \<open>Encode\<close> under \<open>IDENTITY\<close>: it never returns \<open>ErrUnknownCode\<close>, and (for keys
  the frame can hold, at most 65535 bytes each) it returns a frame that decodes to
  a Keypair with code \<open>IDENTITY\<close> and name \<open>identity\<close>.
\<close>

theorem C10_unknown_name_is_identity:
  assumes "name \<notin> set (map fst Names)"
  shows "EncodeName private public name = Encode private public IDENTITY \<and>
    EncodeName private public name \<noteq> Return (Inl ErrUnknownCode) \<and>
    (length private \<le> 65535 \<and> length public \<le> 65535 \<longrightarrow>
      (\<exists>m. EncodeName private public name = Return (Inr m) \<and>
        Decode m = Inr \<lparr>Code = IDENTITY, Name = ''identity'', Public = public,
          PublicLength = int (length public), Private = private,
          PrivateLength = int (length private)\<rparr>))"
proof -
  have e: "EncodeName private public name = Encode private public IDENTITY"
    using assms by (simp add: EncodeName_def Names_index_absent)
  have "length private \<le> 65535 \<and> length public \<le> 65535 \<longrightarrow>
      (\<exists>m. Encode private public IDENTITY = Return (Inr m) \<and>
        Decode m = Inr \<lparr>Code = IDENTITY, Name = ''identity'', Public = public,
          PublicLength = int (length public), Private = private,
          PrivateLength = int (length private)\<rparr>)"
  proof
    assume "length private \<le> 65535 \<and> length public \<le> 65535"
    then have p: "length private < 65536" and q: "length public < 65536" by simp_all
    show "\<exists>m. Encode private public IDENTITY = Return (Inr m) \<and>
        Decode m = Inr \<lparr>Code = IDENTITY, Name = ''identity'', Public = public,
          PublicLength = int (length public), Private = private,
          PrivateLength = int (length private)\<rparr>"
      using Encode_fits [OF validCode_IDENTITY p q] decodeKeypair_payload [OF validCode_IDENTITY p q]
      by (simp add: Decode_def Codes_index_IDENTITY)
  qed
  then show ?thesis
    using e Encode_not_unknown [OF validCode_IDENTITY] by simp
qed

theorem C10_unknown_name_is_identity_witness:
  "''rsa'' \<notin> set (map fst Names) \<and>
   EncodeName [1, 2] [3, 4] ''rsa'' = Encode [1, 2] [3, 4] IDENTITY \<and>
   EncodeName [1, 2] [3, 4] ''rsa'' \<noteq> Return (Inl ErrUnknownCode) \<and>
   length [1, 2 :: byte] \<le> 65535 \<and> length [3, 4 :: byte] \<le> 65535 \<and>
   (\<exists>m. EncodeName [1, 2] [3, 4] ''rsa'' = Return (Inr m) \<and>
      Decode m = Inr \<lparr>Code = IDENTITY, Name = ''identity'', Public = [3, 4],
          PublicLength = 2, Private = [1, 2], PrivateLength = 2\<rparr>)"
proof -
  have n: "''rsa'' \<notin> set (map fst Names)" by (simp add: Names_def)
  have l: "length [1, 2 :: byte] \<le> 65535 \<and> length [3, 4 :: byte] \<le> 65535" by simp
  have i: "int (length [1, 2 :: byte]) = 2" "int (length [3, 4 :: byte]) = 2" by simp_all
  show ?thesis
    using C10_unknown_name_is_identity [OF n, of "[1, 2]" "[3, 4]"] n l
    unfolding i by blast
qed

end
